theory Spec2Isabelle
  imports Complex_Main "HOL-Library.Multiset" "HOL-Library.Sublist"
begin

section \<open>Slip classification on the ladder page\<close>

text \<open>
  \<^verbatim>\<open>frontend/lib/api.ts\<close> declares \<^verbatim>\<open>Slip\<close> with an optional tag
  \<^verbatim>\<open>type?: "single" | "multi"\<close> and a list of legs. The ladder page splits the fetched
  slips with two filters on that tag and renders each group with \<^verbatim>\<open>map((slip, idx) => ...)\<close>;
  \<^verbatim>\<open>SlipCard\<close> derives the key of its expand state from the group prefix and the index.
\<close>

datatype slip_kind = Single | Multi

record SlipLeg =
  leg_player_name :: string
  leg_market_label :: string

record Slip =
  summary :: string
  legs :: "SlipLeg list"
  slip_type :: "slip_kind option"

definition singles :: "Slip list \<Rightarrow> Slip list" where
  "singles slips = filter (\<lambda>s. slip_type s = Some Single) slips"

definition multis :: "Slip list \<Rightarrow> Slip list" where
  "multis slips = filter (\<lambda>s. slip_type s \<noteq> Some Single) slips"

definition cardKey :: "string \<Rightarrow> nat \<Rightarrow> int" where
  "cardKey pfx idx = (if pfx = ''s'' then - (int idx + 1) else int idx)"

text \<open>The cards the page renders for a group: each slip of the group with its key.\<close>

definition cards :: "string \<Rightarrow> Slip list \<Rightarrow> (int \<times> Slip) list" where
  "cards pfx grp = map (\<lambda>(idx, slip). (cardKey pfx idx, slip)) (enumerate 0 grp)"

definition single_cards :: "Slip list \<Rightarrow> (int \<times> Slip) list" where
  "single_cards slips = cards ''s'' (singles slips)"

definition multi_cards :: "Slip list \<Rightarrow> (int \<times> Slip) list" where
  "multi_cards slips = cards ''m'' (multis slips)"

section \<open>JavaScript numbers\<close>

text \<open>
  The statistics are computed on JavaScript numbers. A number is modelled as a rational
  or one of the three non-finite values, so that a division by zero is visible as
  \<open>NaN\<close> or an infinity. The exact result of an arithmetic operation on two finite
  numbers is rounded to a double: a finite number again or, when the result is too large,
  an infinity. This rounding is the parameter \<open>rd\<close> of the operations;
  \<open>double_rounding\<close> states what is used of it (rounding is monotone and leaves 53-bit
  integers unchanged). Exact arithmetic is the rounding \<open>Num\<close>. Signed zero is not
  distinguished.
\<close>

datatype jsnum = Num rat | NaN | PosInf | NegInf

fun js_le :: "jsnum \<Rightarrow> jsnum \<Rightarrow> bool" where
  "js_le NaN b = False"
| "js_le a NaN = False"
| "js_le NegInf b = True"
| "js_le a PosInf = True"
| "js_le (Num x) (Num y) = (x \<le> y)"
| "js_le a b = False"

definition double_rounding :: "(rat \<Rightarrow> jsnum) \<Rightarrow> bool" where
  "double_rounding rd \<longleftrightarrow>
     (\<forall>x y. x \<le> y \<longrightarrow> js_le (rd x) (rd y)) \<and>
     (\<forall>n::int. \<bar>n\<bar> \<le> 2 ^ 53 \<longrightarrow> rd (of_int n) = Num (of_int n))"

text \<open>
  A rounding that is exact up to the largest double and gives an infinity beyond it, for
  the examples.
\<close>

definition overflowing :: "rat \<Rightarrow> jsnum" where
  "overflowing x =
     (if (2 ^ 53 - 1) * 2 ^ 971 < \<bar>x\<bar> then (if 0 < x then PosInf else NegInf) else Num x)"

fun inf_of_sign :: "rat \<Rightarrow> jsnum" where
  "inf_of_sign x = (if x = 0 then NaN else if 0 < x then PosInf else NegInf)"

fun js_neg :: "jsnum \<Rightarrow> jsnum" where
  "js_neg (Num x) = Num (- x)"
| "js_neg NaN = NaN"
| "js_neg PosInf = NegInf"
| "js_neg NegInf = PosInf"

fun js_add :: "(rat \<Rightarrow> jsnum) \<Rightarrow> jsnum \<Rightarrow> jsnum \<Rightarrow> jsnum" where
  "js_add rd (Num x) (Num y) = rd (x + y)"
| "js_add rd NaN b = NaN"
| "js_add rd a NaN = NaN"
| "js_add rd PosInf NegInf = NaN"
| "js_add rd NegInf PosInf = NaN"
| "js_add rd PosInf b = PosInf"
| "js_add rd a PosInf = PosInf"
| "js_add rd NegInf b = NegInf"
| "js_add rd a NegInf = NegInf"

definition js_sub :: "(rat \<Rightarrow> jsnum) \<Rightarrow> jsnum \<Rightarrow> jsnum \<Rightarrow> jsnum" where
  "js_sub rd a b = js_add rd a (js_neg b)"

fun js_mul :: "(rat \<Rightarrow> jsnum) \<Rightarrow> jsnum \<Rightarrow> jsnum \<Rightarrow> jsnum" where
  "js_mul rd (Num x) (Num y) = rd (x * y)"
| "js_mul rd NaN b = NaN"
| "js_mul rd a NaN = NaN"
| "js_mul rd PosInf (Num y) = inf_of_sign y"
| "js_mul rd NegInf (Num y) = inf_of_sign (- y)"
| "js_mul rd (Num x) PosInf = inf_of_sign x"
| "js_mul rd (Num x) NegInf = inf_of_sign (- x)"
| "js_mul rd PosInf PosInf = PosInf"
| "js_mul rd PosInf NegInf = NegInf"
| "js_mul rd NegInf PosInf = NegInf"
| "js_mul rd NegInf NegInf = PosInf"

fun js_div :: "(rat \<Rightarrow> jsnum) \<Rightarrow> jsnum \<Rightarrow> jsnum \<Rightarrow> jsnum" where
  "js_div rd (Num x) (Num y) = (if y = 0 then inf_of_sign x else rd (x / y))"
| "js_div rd NaN b = NaN"
| "js_div rd a NaN = NaN"
| "js_div rd (Num x) PosInf = Num 0"
| "js_div rd (Num x) NegInf = Num 0"
| "js_div rd PosInf (Num y) = (if y < 0 then NegInf else PosInf)"
| "js_div rd NegInf (Num y) = (if y < 0 then PosInf else NegInf)"
| "js_div rd a b = NaN"

text \<open>\<^verbatim>\<open>Math.round\<close>: the nearest integer, a tie going up.\<close>

fun js_round :: "jsnum \<Rightarrow> jsnum" where
  "js_round (Num x) = Num (of_int \<lfloor>x + 1 / 2\<rfloor>)"
| "js_round a = a"

text \<open>Truthiness of a number, as in \<^verbatim>\<open>total ? ... : 0\<close> and \<^verbatim>\<open>a || b\<close>.\<close>

fun truthy :: "jsnum \<Rightarrow> bool" where
  "truthy (Num x) = (x \<noteq> 0)"
| "truthy NaN = False"
| "truthy a = True"

fun js_positive :: "jsnum \<Rightarrow> bool" where
  "js_positive (Num x) = (0 < x)"
| "js_positive PosInf = True"
| "js_positive a = False"

text \<open>
  \<^verbatim>\<open>Array.prototype.sort\<close> with a comparator is stable: two elements change their order
  only when the comparator of the earlier with the later is positive. For a comparator
  that is a weak order the result is that of the stable insertion sort below.
\<close>

fun js_insert :: "('a \<Rightarrow> 'a \<Rightarrow> jsnum) \<Rightarrow> 'a \<Rightarrow> 'a list \<Rightarrow> 'a list" where
  "js_insert cmp x [] = [x]"
| "js_insert cmp x (y # ys) =
     (if js_positive (cmp x y) then y # js_insert cmp x ys else x # y # ys)"

definition js_sort :: "('a \<Rightarrow> 'a \<Rightarrow> jsnum) \<Rightarrow> 'a list \<Rightarrow> 'a list" where
  "js_sort cmp xs = foldr (js_insert cmp) xs []"

section \<open>Rate helper of the analytics page\<close>

text \<open>\<^verbatim>\<open>function pct(hits, total) { return total ? Math.round((hits / total) * 100) : 0; }\<close>\<close>

definition pct :: "(rat \<Rightarrow> jsnum) \<Rightarrow> jsnum \<Rightarrow> jsnum \<Rightarrow> jsnum" where
  "pct rd hits tot =
     (if truthy tot then js_round (js_mul rd (js_div rd hits tot) (Num 100)) else Num 0)"

section \<open>Summary computations of the prop-results page\<close>

text \<open>
  Of \<^verbatim>\<open>PropResult\<close> the two rollups read the player name, the market label, the value
  score (read with \<^verbatim>\<open>?? 0\<close>, so possibly missing) and the leg result (\<^verbatim>\<open>null\<close> while
  the prop is not graded).
\<close>

datatype leg_outcome = HIT | MISS

record PropResult =
  player_name :: string
  market_label :: string
  value_score :: "rat option"
  leg_result :: "leg_outcome option"

text \<open>
  The accumulators are objects used as dictionaries, created by \<^verbatim>\<open>{}\<close>: an accumulator
  is an association list of its own properties in the order of their creation, in which
  a new key is appended and an existing entry is updated in place.

  Two kinds of keys behave in their own way. A key that names a property of
  \<^verbatim>\<open>Object.prototype\<close> finds the inherited value, which is truthy (a function, or the
  prototype itself for \<^verbatim>\<open>__proto__\<close>): \<^verbatim>\<open>if (!acc[m]) acc[m] = ...\<close> creates no entry,
  and the increments that follow go to the inherited object. And \<^verbatim>\<open>Object.entries\<close> and
  \<^verbatim>\<open>Object.values\<close> list the keys that are array indices (the canonical decimal
  numerals up to 4294967294) first, in ascending order, and then the other keys in
  the order of their creation.
\<close>

definition object_prototype_names :: "string list" where
  "object_prototype_names =
     [''constructor'', ''__proto__'', ''hasOwnProperty'', ''isPrototypeOf'',
      ''propertyIsEnumerable'', ''toLocaleString'', ''toString'', ''valueOf'',
      ''__defineGetter__'', ''__defineSetter__'', ''__lookupGetter__'', ''__lookupSetter__'']"

definition is_digit :: "char \<Rightarrow> bool" where
  "is_digit c \<longleftrightarrow> c \<in> set ''0123456789''"

definition digit_value :: "char \<Rightarrow> nat" where
  "digit_value c = length (takeWhile (\<lambda>d. d \<noteq> c) ''0123456789'')"

definition decimal_value :: "string \<Rightarrow> nat" where
  "decimal_value k = foldl (\<lambda>n c. 10 * n + digit_value c) 0 k"

definition array_index :: "string \<Rightarrow> nat option" where
  "array_index k =
     (if k \<noteq> [] \<and> list_all is_digit k \<and> (k = ''0'' \<or> hd k \<noteq> CHR ''0'') \<and>
         decimal_value k < 2 ^ 32 - 1
      then Some (decimal_value k) else None)"

definition index_or_zero :: "string \<Rightarrow> nat" where
  "index_or_zero k = (case array_index k of None \<Rightarrow> 0 | Some n \<Rightarrow> n)"

definition own_entries :: "(string \<times> 'v) list \<Rightarrow> (string \<times> 'v) list" where
  "own_entries kvs =
     sort_key (\<lambda>e. index_or_zero (fst e)) (filter (\<lambda>e. array_index (fst e) \<noteq> None) kvs) @
     filter (\<lambda>e. array_index (fst e) = None) kvs"

fun acc_upd :: "'k \<Rightarrow> 'v \<Rightarrow> ('v \<Rightarrow> 'v) \<Rightarrow> ('k \<times> 'v) list \<Rightarrow> ('k \<times> 'v) list" where
  "acc_upd k init f [] = [(k, f init)]"
| "acc_upd k init f ((k', v) # kvs) =
     (if k' = k then (k', f v) # kvs else (k', v) # acc_upd k init f kvs)"

record market_acc =
  m_total :: nat
  m_hits :: nat

record MarketStat =
  ms_label :: string
  ms_total :: nat
  ms_hits :: nat
  ms_pct :: jsnum

text \<open>
  The market rollup is keyed by the market label alone. A graded row whose label names a
  property of \<^verbatim>\<open>Object.prototype\<close> leaves the accumulator as it is.
\<close>

definition market_step ::
    "(string \<times> market_acc) list \<Rightarrow> PropResult \<Rightarrow> (string \<times> market_acc) list" where
  "market_step acc r =
     (case leg_result r of
        None \<Rightarrow> acc
      | Some res \<Rightarrow>
          if market_label r \<in> set object_prototype_names then acc
          else acc_upd (market_label r) \<lparr>m_total = 0, m_hits = 0\<rparr>
                 (\<lambda>a. a\<lparr>m_total := m_total a + 1,
                         m_hits := (if res = HIT then m_hits a + 1 else m_hits a)\<rparr>) acc)"

definition market_entry :: "(rat \<Rightarrow> jsnum) \<Rightarrow> string \<times> market_acc \<Rightarrow> MarketStat" where
  "market_entry rd e =
     (case e of (label, s) \<Rightarrow>
        \<lparr>ms_label = label, ms_total = m_total s, ms_hits = m_hits s,
         ms_pct = (if m_total s \<noteq> 0
                   then js_round (js_mul rd (js_div rd (Num (of_nat (m_hits s)))
                                                     (Num (of_nat (m_total s)))) (Num 100))
                   else Num 0)\<rparr>)"

definition computeMarketStats :: "(rat \<Rightarrow> jsnum) \<Rightarrow> PropResult list \<Rightarrow> MarketStat list" where
  "computeMarketStats rd rows =
     js_sort (\<lambda>a b. js_sub rd (ms_pct b) (ms_pct a))
       (map (market_entry rd) (own_entries (foldl market_step [] rows)))"

record player_acc =
  a_player :: string
  a_market :: string
  a_graded :: nat
  a_hits :: nat
  a_scores :: "rat list"
  a_pending :: nat

record PlayerStat =
  ps_player :: string
  ps_market :: string
  ps_total :: nat
  ps_hits :: nat
  ps_hit_pct :: jsnum
  ps_avg_score :: jsnum
  ps_pending :: nat

text \<open>
  The player rollup is keyed by \<^verbatim>\<open>`${r.player_name}||${r.market_label}`\<close>. Such a key
  contains \<^verbatim>\<open>|\<close>: it is neither an array index nor the name of a property of
  \<^verbatim>\<open>Object.prototype\<close>, and \<^verbatim>\<open>Object.values\<close> lists the entries in the order of their
  creation.
\<close>

definition row_key :: "PropResult \<Rightarrow> string" where
  "row_key r = player_name r @ ''||'' @ market_label r"

text \<open>\<^verbatim>\<open>r.value_score ?? 0\<close>; a score received as JSON is a finite number.\<close>

definition score_or_zero :: "PropResult \<Rightarrow> rat" where
  "score_or_zero r = (case value_score r of None \<Rightarrow> 0 | Some v \<Rightarrow> v)"

definition player_init :: "PropResult \<Rightarrow> player_acc" where
  "player_init r =
     \<lparr>a_player = player_name r, a_market = market_label r, a_graded = 0, a_hits = 0,
      a_scores = [], a_pending = 0\<rparr>"

definition player_visit :: "PropResult \<Rightarrow> player_acc \<Rightarrow> player_acc" where
  "player_visit r a =
     (let a1 = a\<lparr>a_scores := a_scores a @ [score_or_zero r]\<rparr>
      in case leg_result r of
           None \<Rightarrow> a1\<lparr>a_pending := a_pending a1 + 1\<rparr>
         | Some res \<Rightarrow>
             a1\<lparr>a_graded := a_graded a1 + 1,
                a_hits := (if res = HIT then a_hits a1 + 1 else a_hits a1)\<rparr>)"

definition player_step :: "(string \<times> player_acc) list \<Rightarrow> PropResult \<Rightarrow> (string \<times> player_acc) list" where
  "player_step acc r = acc_upd (row_key r) (player_init r) (player_visit r) acc"

text \<open>\<^verbatim>\<open>v.scores.reduce((a, b) => a + b, 0) / v.scores.length\<close>\<close>

definition mean_score :: "(rat \<Rightarrow> jsnum) \<Rightarrow> rat list \<Rightarrow> jsnum" where
  "mean_score rd scores =
     js_div rd (foldl (js_add rd) (Num 0) (map Num scores)) (Num (of_nat (length scores)))"

definition player_entry :: "(rat \<Rightarrow> jsnum) \<Rightarrow> player_acc \<Rightarrow> PlayerStat" where
  "player_entry rd v =
     \<lparr>ps_player = a_player v, ps_market = a_market v, ps_total = a_graded v,
      ps_hits = a_hits v,
      ps_hit_pct = (if a_graded v \<noteq> 0
                    then js_round (js_mul rd (js_div rd (Num (of_nat (a_hits v)))
                                                      (Num (of_nat (a_graded v)))) (Num 100))
                    else Num 0),
      ps_avg_score = js_round (mean_score rd (a_scores v)),
      ps_pending = a_pending v\<rparr>"

definition player_cmp :: "(rat \<Rightarrow> jsnum) \<Rightarrow> PlayerStat \<Rightarrow> PlayerStat \<Rightarrow> jsnum" where
  "player_cmp rd a b =
     (let d = js_sub rd (Num (of_nat (ps_total b))) (Num (of_nat (ps_total a)))
      in if truthy d then d else js_sub rd (ps_hit_pct b) (ps_hit_pct a))"

definition computePlayerStats :: "(rat \<Rightarrow> jsnum) \<Rightarrow> PropResult list \<Rightarrow> PlayerStat list" where
  "computePlayerStats rd rows =
     js_sort (player_cmp rd) (map (player_entry rd \<circ> snd) (foldl player_step [] rows))"

text \<open>The rows of one group of the player rollup, and the key of an output entry.\<close>

definition group_rows :: "string \<Rightarrow> PropResult list \<Rightarrow> PropResult list" where
  "group_rows k rows = filter (\<lambda>r. row_key r = k) rows"

definition stat_key :: "PlayerStat \<Rightarrow> string" where
  "stat_key g = ps_player g @ ''||'' @ ps_market g"

section \<open>Timers and fetches\<close>

text \<open>
  The pages poll with \<^verbatim>\<open>setInterval\<close>. The timer table of the runtime is modelled as the
  list of the active repeating timers, each with its handle and its period in
  milliseconds. A handle is a positive integer (hence truthy in a test such as
  \<^verbatim>\<open>if (pollRef.current)\<close>); \<^verbatim>\<open>clearInterval\<close> of \<^verbatim>\<open>null\<close> or of a handle that is
  not active does nothing. The runtime calls the callback of a timer only while the
  timer is in the table.
\<close>

record timers =
  next_handle :: nat
  intervals :: "(nat \<times> nat) list"

definition no_timers :: timers where
  "no_timers = \<lparr>next_handle = 1, intervals = []\<rparr>"

definition setInterval :: "nat \<Rightarrow> timers \<Rightarrow> nat \<times> timers" where
  "setInterval ms t =
     (next_handle t,
      t\<lparr>next_handle := next_handle t + 1, intervals := intervals t @ [(next_handle t, ms)]\<rparr>)"

definition clearInterval :: "nat option \<Rightarrow> timers \<Rightarrow> timers" where
  "clearInterval h t =
     (case h of
        None \<Rightarrow> t
      | Some i \<Rightarrow> t\<lparr>intervals := filter (\<lambda>e. fst e \<noteq> i) (intervals t)\<rparr>)"

text \<open>
  An \<^verbatim>\<open>await\<close> on a call of the API suspends the function; it resumes with the value or
  with the rejection (a response that is not 2xx, or a network failure). Each async
  function is therefore modelled by one state transformer per segment between two
  \<^verbatim>\<open>await\<close>s; the segments that resume take the response as an argument. The fields
  whose names end in \<open>_calls\<close>, \<open>_fetches\<close>, \<open>_errors\<close>, \<open>_rejections\<close>, \<open>_timeouts\<close>
  and \<open>_runs\<close> are counters of the calls the code makes; they are not state of the
  program.
\<close>

datatype 'a response = Resolved 'a | Rejected

section \<open>Result check on the prop-results and history pages\<close>

datatype results_phase = R_idle | R_running | R_done | R_error

record ResultsStatus =
  rs_status :: results_phase
  rs_checked :: nat
  rs_error :: "string option"

text \<open>
  Both pages have the same \<^verbatim>\<open>autoCheck\<close>, but for one statement: on a status that is
  not \<^verbatim>\<open>"running"\<close> the tick of the prop-results page also sets
  \<^verbatim>\<open>checkPollRef.current = null\<close>.

  A page is a React component. While it is mounted a call of a state setter sets the
  state; after the unmount React discards such a call. A ref, a timer and a call of the
  API are not React state and are not affected by the unmount.
\<close>

datatype check_page_kind = PropResultsPage | HistoryPage

record check_page =
  c_mounted :: bool
  checkStatus :: "ResultsStatus option"
  "checking" :: bool
  checkPollRef :: "nat option"
  c_timers :: timers
  c_check_calls :: nat
  c_status_fetches :: nat
  c_load_calls :: nat
  c_console_errors :: nat
  c_terminal_runs :: nat

definition check_page_init :: check_page where
  "check_page_init =
     \<lparr>c_mounted = True, checkStatus = None, checking = False, checkPollRef = None,
      c_timers = no_timers, c_check_calls = 0, c_status_fetches = 0, c_load_calls = 0,
      c_console_errors = 0, c_terminal_runs = 0\<rparr>"

definition check_setState :: "(check_page \<Rightarrow> check_page) \<Rightarrow> check_page \<Rightarrow> check_page" where
  "check_setState f s = (if c_mounted s then f s else s)"

definition check_load :: "check_page \<Rightarrow> check_page" where
  "check_load s = s\<lparr>c_load_calls := c_load_calls s + 1\<rparr>"

text \<open>\<^verbatim>\<open>autoCheck\<close> up to \<^verbatim>\<open>await api.results.check(checkDate)\<close>.\<close>

definition autoCheck_begin :: "check_page \<Rightarrow> check_page" where
  "autoCheck_begin s =
     (check_setState (\<lambda>s. s\<lparr>checking := True, checkStatus := None\<rparr>) s)
       \<lparr>c_check_calls := c_check_calls s + 1\<rparr>"

text \<open>\<^verbatim>\<open>catch (e) { console.error(e); setChecking(false); }\<close>\<close>

definition autoCheck_catch :: "check_page \<Rightarrow> check_page" where
  "autoCheck_catch s =
     check_setState (\<lambda>s. s\<lparr>checking := False\<rparr>)
       (s\<lparr>c_console_errors := c_console_errors s + 1\<rparr>)"

text \<open>The trigger has answered; on success the status is fetched.\<close>

definition autoCheck_after_check :: "unit response \<Rightarrow> check_page \<Rightarrow> check_page" where
  "autoCheck_after_check r s =
     (case r of
        Rejected \<Rightarrow> autoCheck_catch s
      | Resolved u \<Rightarrow> s\<lparr>c_status_fetches := c_status_fetches s + 1\<rparr>)"

text \<open>The first status has answered.\<close>

definition autoCheck_after_status :: "ResultsStatus response \<Rightarrow> check_page \<Rightarrow> check_page" where
  "autoCheck_after_status r s =
     (case r of
        Rejected \<Rightarrow> autoCheck_catch s
      | Resolved initial \<Rightarrow>
          (let s1 = check_setState (\<lambda>s. s\<lparr>checkStatus := Some initial\<rparr>) s
           in if rs_status initial = R_running
              then (case setInterval 2000 (c_timers s1) of
                      (h, t) \<Rightarrow> s1\<lparr>checkPollRef := Some h, c_timers := t\<rparr>)
              else (let s2 = (check_setState (\<lambda>s. s\<lparr>checking := False\<rparr>) s1)
                               \<lparr>c_terminal_runs := c_terminal_runs s1 + 1\<rparr>
                    in if rs_status initial = R_done then check_load s2 else s2)))"

text \<open>The callback of the interval: up to its \<^verbatim>\<open>await api.results.status()\<close>, and from there.\<close>

definition check_tick_begin :: "check_page \<Rightarrow> check_page" where
  "check_tick_begin s = s\<lparr>c_status_fetches := c_status_fetches s + 1\<rparr>"

definition check_tick_resume ::
    "check_page_kind \<Rightarrow> ResultsStatus response \<Rightarrow> check_page \<Rightarrow> check_page" where
  "check_tick_resume k r s =
     (case r of
        Rejected \<Rightarrow> s
      | Resolved st \<Rightarrow>
          (let s1 = check_setState (\<lambda>s. s\<lparr>checkStatus := Some st\<rparr>) s
           in if rs_status st \<noteq> R_running
              then (let s2 = s1\<lparr>c_timers := clearInterval (checkPollRef s1) (c_timers s1)\<rparr>;
                        s3 = (if k = PropResultsPage then s2\<lparr>checkPollRef := None\<rparr> else s2);
                        s4 = (check_setState (\<lambda>s. s\<lparr>checking := False\<rparr>) s3)
                               \<lparr>c_terminal_runs := c_terminal_runs s3 + 1\<rparr>
                    in if rs_status st = R_done then check_load s4 else s4)
              else s1))"

text \<open>
  The unmount runs the cleanup
  \<^verbatim>\<open>if (checkPollRef.current) clearInterval(checkPollRef.current)\<close>.
\<close>

definition check_unmount :: "check_page \<Rightarrow> check_page" where
  "check_unmount s =
     (case checkPollRef s of
        None \<Rightarrow> s
      | Some h \<Rightarrow> s\<lparr>c_timers := clearInterval (Some h) (c_timers s)\<rparr>)
       \<lparr>c_mounted := False\<rparr>"

text \<open>
  A status source answers the successive status fetches with the responses of a list.
  In a sequential run every fetch is answered before the next tick fires, and a tick
  fires only while a timer is active: once none is, the remaining responses are never
  asked for.
\<close>

fun check_run_ticks ::
    "check_page_kind \<Rightarrow> ResultsStatus response list \<Rightarrow> check_page \<Rightarrow> check_page" where
  "check_run_ticks k [] s = s"
| "check_run_ticks k (r # rs) s =
     (if intervals (c_timers s) = [] then s
      else check_run_ticks k rs (check_tick_resume k r (check_tick_begin s)))"

text \<open>A press of the button with a trigger that succeeds, then the sequential run.\<close>

fun autoCheck_run ::
    "check_page_kind \<Rightarrow> ResultsStatus response list \<Rightarrow> check_page \<Rightarrow> check_page" where
  "autoCheck_run k [] s = autoCheck_after_check (Resolved ()) (autoCheck_begin s)"
| "autoCheck_run k (r # rs) s =
     check_run_ticks k rs
       (autoCheck_after_status r (autoCheck_after_check (Resolved ()) (autoCheck_begin s)))"

section \<open>The ladder page\<close>

datatype ladder_phase = L_idle | L_running | L_done | L_no_games | L_no_props | L_error

record LadderStatus =
  ls_status :: ladder_phase
  ls_props_graded :: nat
  ls_error :: "string option"

record ladder_page =
  l_mounted :: bool
  l_status :: "LadderStatus option"
  slips :: "Slip list"
  expanded :: "int option"
  triggering :: bool
  pollRef :: "nat option"
  l_timers :: timers
  l_trigger_calls :: nat
  l_status_fetches :: nat
  l_results_fetches :: nat
  l_console_errors :: nat
  l_terminal_runs :: nat

definition ladder_page_init :: ladder_page where
  "ladder_page_init =
     \<lparr>l_mounted = True, l_status = None, slips = [], expanded = None, triggering = False,
      pollRef = None, l_timers = no_timers, l_trigger_calls = 0, l_status_fetches = 0,
      l_results_fetches = 0, l_console_errors = 0, l_terminal_runs = 0\<rparr>"

definition ladder_setState :: "(ladder_page \<Rightarrow> ladder_page) \<Rightarrow> ladder_page \<Rightarrow> ladder_page" where
  "ladder_setState f s = (if l_mounted s then f s else s)"

text \<open>
  The poll effect has the dependency \<^verbatim>\<open>status?.status\<close>. When a segment has changed it,
  the render that follows runs the cleanup of the effect and then the effect again; a
  component that is not mounted does not render.
\<close>

definition ladder_dep :: "ladder_page \<Rightarrow> ladder_phase option" where
  "ladder_dep s = map_option ls_status (l_status s)"

definition poll_cleanup :: "ladder_page \<Rightarrow> ladder_page" where
  "poll_cleanup s =
     (case pollRef s of
        None \<Rightarrow> s
      | Some h \<Rightarrow> s\<lparr>l_timers := clearInterval (Some h) (l_timers s)\<rparr>)"

definition poll_effect :: "ladder_page \<Rightarrow> ladder_page" where
  "poll_effect s =
     (if ladder_dep s = Some L_running
      then (case setInterval 2000 (l_timers s) of
              (h, t) \<Rightarrow> s\<lparr>pollRef := Some h, l_timers := t\<rparr>)
      else s)"

definition ladder_commit :: "ladder_phase option \<Rightarrow> ladder_page \<Rightarrow> ladder_page" where
  "ladder_commit old s =
     (if l_mounted s \<and> ladder_dep s \<noteq> old then poll_effect (poll_cleanup s) else s)"

text \<open>Mount: the status and the results are fetched, and the poll effect runs once.\<close>

definition ladder_mount :: "ladder_page \<Rightarrow> ladder_page" where
  "ladder_mount s =
     poll_effect (s\<lparr>l_status_fetches := l_status_fetches s + 1,
                    l_results_fetches := l_results_fetches s + 1\<rparr>)"

definition ladder_mount_status :: "LadderStatus response \<Rightarrow> ladder_page \<Rightarrow> ladder_page" where
  "ladder_mount_status r s =
     (case r of
        Rejected \<Rightarrow> s
      | Resolved st \<Rightarrow>
          ladder_commit (ladder_dep s) (ladder_setState (\<lambda>s. s\<lparr>l_status := Some st\<rparr>) s))"

text \<open>The results have answered (on mount, or in a tick that saw \<^verbatim>\<open>"done"\<close>).\<close>

definition ladder_results_resume :: "Slip list response \<Rightarrow> ladder_page \<Rightarrow> ladder_page" where
  "ladder_results_resume r s =
     (case r of
        Rejected \<Rightarrow> s
      | Resolved res \<Rightarrow> ladder_setState (\<lambda>s. s\<lparr>slips := res\<rparr>) s)"

definition ladder_unmount :: "ladder_page \<Rightarrow> ladder_page" where
  "ladder_unmount s = (poll_cleanup s)\<lparr>l_mounted := False\<rparr>"

text \<open>The callback of the interval.\<close>

definition ladder_tick_begin :: "ladder_page \<Rightarrow> ladder_page" where
  "ladder_tick_begin s = s\<lparr>l_status_fetches := l_status_fetches s + 1\<rparr>"

definition ladder_tick_resume :: "LadderStatus response \<Rightarrow> ladder_page \<Rightarrow> ladder_page" where
  "ladder_tick_resume r s =
     (case r of
        Rejected \<Rightarrow> s
      | Resolved st \<Rightarrow>
          (let s1 = ladder_setState (\<lambda>s. s\<lparr>l_status := Some st\<rparr>) s
           in ladder_commit (ladder_dep s)
                (if ls_status st \<noteq> L_running
                 then (let s2 = s1\<lparr>l_timers := clearInterval (pollRef s1) (l_timers s1),
                                    l_terminal_runs := l_terminal_runs s1 + 1\<rparr>
                       in if ls_status st = L_done
                          then s2\<lparr>l_results_fetches := l_results_fetches s2 + 1\<rparr>
                          else s2)
                 else s1)))"

text \<open>\<^verbatim>\<open>runLadder\<close>: up to the trigger, after the trigger, after the status.\<close>

definition runLadder_begin :: "ladder_page \<Rightarrow> ladder_page" where
  "runLadder_begin s =
     (ladder_setState (\<lambda>s. s\<lparr>triggering := True, slips := [], expanded := None\<rparr>) s)
       \<lparr>l_trigger_calls := l_trigger_calls s + 1\<rparr>"

text \<open>\<^verbatim>\<open>catch (e) { console.error(e); } finally { setTriggering(false); }\<close>\<close>

definition runLadder_catch :: "ladder_page \<Rightarrow> ladder_page" where
  "runLadder_catch s =
     ladder_setState (\<lambda>s. s\<lparr>triggering := False\<rparr>)
       (s\<lparr>l_console_errors := l_console_errors s + 1\<rparr>)"

definition runLadder_after_trigger :: "unit response \<Rightarrow> ladder_page \<Rightarrow> ladder_page" where
  "runLadder_after_trigger r s =
     (case r of
        Rejected \<Rightarrow> runLadder_catch s
      | Resolved u \<Rightarrow> s\<lparr>l_status_fetches := l_status_fetches s + 1\<rparr>)"

definition runLadder_after_status :: "LadderStatus response \<Rightarrow> ladder_page \<Rightarrow> ladder_page" where
  "runLadder_after_status r s =
     (case r of
        Rejected \<Rightarrow> runLadder_catch s
      | Resolved st \<Rightarrow>
          ladder_commit (ladder_dep s)
            (ladder_setState (\<lambda>s. s\<lparr>l_status := Some st, triggering := False\<rparr>) s))"

fun ladder_run_ticks :: "LadderStatus response list \<Rightarrow> ladder_page \<Rightarrow> ladder_page" where
  "ladder_run_ticks [] s = s"
| "ladder_run_ticks (r # rs) s =
     (if intervals (l_timers s) = [] then s
      else ladder_run_ticks rs (ladder_tick_resume r (ladder_tick_begin s)))"


section \<open>Refresh on the dashboard\<close>

record RefreshStatus =
  rf_running :: bool
  rf_status :: string
  rf_props_graded :: nat
  rf_props_total :: nat

text \<open>
  The poll effect of the dashboard has the dependencies \<^verbatim>\<open>refreshing\<close> and
  \<^verbatim>\<open>fetchData\<close>; the filters, on which \<^verbatim>\<open>fetchData\<close> depends, are held fixed here. The
  callback and the cleanup of an effect close over the handle \<^verbatim>\<open>id\<close> of its timer:
  \<open>effect_handle\<close> is the handle of the effect in place, and the callback takes its own.
\<close>

record dashboard =
  d_mounted :: bool
  refreshing :: bool
  refreshStatus :: "RefreshStatus option"
  d_error :: "string option"
  effect_handle :: "nat option"
  d_timers :: timers
  d_refresh_calls :: nat
  d_status_fetches :: nat
  d_fetchData_timeouts :: nat
  d_unhandled_rejections :: nat
  d_terminal_runs :: nat

definition dashboard_init :: dashboard where
  "dashboard_init =
     \<lparr>d_mounted = True, refreshing = False, refreshStatus = None, d_error = None,
      effect_handle = None, d_timers = no_timers, d_refresh_calls = 0, d_status_fetches = 0,
      d_fetchData_timeouts = 0, d_unhandled_rejections = 0, d_terminal_runs = 0\<rparr>"

definition dashboard_setState :: "(dashboard \<Rightarrow> dashboard) \<Rightarrow> dashboard \<Rightarrow> dashboard" where
  "dashboard_setState f s = (if d_mounted s then f s else s)"

definition refresh_cleanup :: "dashboard \<Rightarrow> dashboard" where
  "refresh_cleanup s =
     (case effect_handle s of
        None \<Rightarrow> s
      | Some h \<Rightarrow> s\<lparr>d_timers := clearInterval (Some h) (d_timers s), effect_handle := None\<rparr>)"

definition refresh_effect :: "dashboard \<Rightarrow> dashboard" where
  "refresh_effect s =
     (if \<not> refreshing s then s
      else (case setInterval 1500 (d_timers s) of
              (h, t) \<Rightarrow> s\<lparr>effect_handle := Some h, d_timers := t\<rparr>))"

definition dashboard_commit :: "bool \<Rightarrow> dashboard \<Rightarrow> dashboard" where
  "dashboard_commit old s =
     (if d_mounted s \<and> refreshing s \<noteq> old then refresh_effect (refresh_cleanup s) else s)"

definition dashboard_unmount :: "dashboard \<Rightarrow> dashboard" where
  "dashboard_unmount s = (refresh_cleanup s)\<lparr>d_mounted := False\<rparr>"

text \<open>
  \<^verbatim>\<open>handleRefresh\<close> has no \<^verbatim>\<open>try\<close>: a rejection leaves the function as an unhandled
  rejection of its promise. The same holds for the callback of the interval.
\<close>

definition handleRefresh_begin :: "dashboard \<Rightarrow> dashboard" where
  "handleRefresh_begin s =
     dashboard_commit (refreshing s)
       ((dashboard_setState (\<lambda>s. s\<lparr>refreshing := True, d_error := None\<rparr>) s)
          \<lparr>d_refresh_calls := d_refresh_calls s + 1\<rparr>)"

definition handleRefresh_after_trigger :: "unit response \<Rightarrow> dashboard \<Rightarrow> dashboard" where
  "handleRefresh_after_trigger r s =
     (case r of
        Rejected \<Rightarrow> s\<lparr>d_unhandled_rejections := d_unhandled_rejections s + 1\<rparr>
      | Resolved u \<Rightarrow> s\<lparr>d_status_fetches := d_status_fetches s + 1\<rparr>)"

definition handleRefresh_after_status :: "RefreshStatus response \<Rightarrow> dashboard \<Rightarrow> dashboard" where
  "handleRefresh_after_status r s =
     (case r of
        Rejected \<Rightarrow> s\<lparr>d_unhandled_rejections := d_unhandled_rejections s + 1\<rparr>
      | Resolved st \<Rightarrow> dashboard_setState (\<lambda>s. s\<lparr>refreshStatus := Some st\<rparr>) s)"

definition refresh_tick_begin :: "dashboard \<Rightarrow> dashboard" where
  "refresh_tick_begin s = s\<lparr>d_status_fetches := d_status_fetches s + 1\<rparr>"

definition refresh_tick_resume :: "nat \<Rightarrow> RefreshStatus response \<Rightarrow> dashboard \<Rightarrow> dashboard" where
  "refresh_tick_resume h r s =
     (case r of
        Rejected \<Rightarrow> s\<lparr>d_unhandled_rejections := d_unhandled_rejections s + 1\<rparr>
      | Resolved st \<Rightarrow>
          (let s1 = dashboard_setState (\<lambda>s. s\<lparr>refreshStatus := Some st\<rparr>) s
           in dashboard_commit (refreshing s)
                (if \<not> rf_running st
                 then (dashboard_setState (\<lambda>s. s\<lparr>refreshing := False\<rparr>) s1)
                        \<lparr>d_timers := clearInterval (Some h) (d_timers s1),
                         d_fetchData_timeouts := d_fetchData_timeouts s1 + 1,
                         d_terminal_runs := d_terminal_runs s1 + 1\<rparr>
                 else s1)))"

fun refresh_run_ticks :: "RefreshStatus response list \<Rightarrow> dashboard \<Rightarrow> dashboard" where
  "refresh_run_ticks [] s = s"
| "refresh_run_ticks (r # rs) s =
     (case intervals (d_timers s) of
        [] \<Rightarrow> s
      | e # es \<Rightarrow> refresh_run_ticks rs (refresh_tick_resume (fst e) r (refresh_tick_begin s)))"


section \<open>Active poll loops\<close>

text \<open>
  A poll loop is active with handle \<open>h\<close> when the page is mounted and the timer that it
  keeps track of is the one timer in the table: for the check pages the handle is in
  \<^verbatim>\<open>checkPollRef\<close>, for the ladder page it is in \<^verbatim>\<open>pollRef\<close> and the status shown is
  \<^verbatim>\<open>"running"\<close>, for the dashboard it is the handle of the effect in place and
  \<^verbatim>\<open>refreshing\<close> is set.
\<close>

definition check_polling :: "nat \<Rightarrow> check_page \<Rightarrow> bool" where
  "check_polling h s \<longleftrightarrow>
     c_mounted s \<and> checkPollRef s = Some h \<and> intervals (c_timers s) = [(h, 2000)]"

text \<open>
  On a check page a timer can also be the one timer of a page that is not mounted any
  more: \<^verbatim>\<open>autoCheck\<close> calls \<^verbatim>\<open>setInterval\<close> itself, after its two \<^verbatim>\<open>await\<close>s.
\<close>

definition check_orphan :: "nat \<Rightarrow> check_page \<Rightarrow> bool" where
  "check_orphan h s \<longleftrightarrow>
     \<not> c_mounted s \<and> checkPollRef s = Some h \<and> intervals (c_timers s) = [(h, 2000)]"

definition ladder_polling :: "nat \<Rightarrow> ladder_page \<Rightarrow> bool" where
  "ladder_polling h s \<longleftrightarrow>
     l_mounted s \<and> ladder_dep s = Some L_running \<and> pollRef s = Some h \<and>
     intervals (l_timers s) = [(h, 2000)]"

definition refresh_polling :: "nat \<Rightarrow> dashboard \<Rightarrow> bool" where
  "refresh_polling h s \<longleftrightarrow>
     d_mounted s \<and> refreshing s \<and> effect_handle s = Some h \<and>
     intervals (d_timers s) = [(h, 1500)]"

section \<open>Sample statuses and states\<close>

text \<open>Concrete statuses, and pages whose poll loop has just been started, for the examples.\<close>

abbreviation results_running :: ResultsStatus where
  "results_running \<equiv> \<lparr>rs_status = R_running, rs_checked = 1, rs_error = None\<rparr>"

abbreviation results_done :: ResultsStatus where
  "results_done \<equiv> \<lparr>rs_status = R_done, rs_checked = 3, rs_error = None\<rparr>"

abbreviation results_idle :: ResultsStatus where
  "results_idle \<equiv> \<lparr>rs_status = R_idle, rs_checked = 0, rs_error = None\<rparr>"


abbreviation ladder_running :: LadderStatus where
  "ladder_running \<equiv> \<lparr>ls_status = L_running, ls_props_graded = 4, ls_error = None\<rparr>"

abbreviation ladder_done :: LadderStatus where
  "ladder_done \<equiv> \<lparr>ls_status = L_done, ls_props_graded = 9, ls_error = None\<rparr>"

abbreviation refresh_running :: RefreshStatus where
  "refresh_running \<equiv>
     \<lparr>rf_running = True, rf_status = ''running'', rf_props_graded = 1, rf_props_total = 5\<rparr>"

abbreviation refresh_finished :: RefreshStatus where
  "refresh_finished \<equiv>
     \<lparr>rf_running = False, rf_status = ''done'', rf_props_graded = 5, rf_props_total = 5\<rparr>"

abbreviation check_page_started :: "check_page_kind \<Rightarrow> check_page" where
  "check_page_started k \<equiv> autoCheck_run k [Resolved results_running] check_page_init"

abbreviation ladder_page_started :: ladder_page where
  "ladder_page_started \<equiv>
     runLadder_after_status (Resolved ladder_running)
       (runLadder_after_trigger (Resolved ()) (runLadder_begin (ladder_mount ladder_page_init)))"

abbreviation dashboard_started :: dashboard where
  "dashboard_started \<equiv> handleRefresh_begin dashboard_init"

section \<open>Proofs: sorting and accumulators\<close>

lemma set_js_insert: "set (js_insert cmp x ys) = insert x (set ys)"
  by (induction ys) auto

lemma set_js_sort: "set (js_sort cmp xs) = set xs"
  by (induction xs) (auto simp: js_sort_def set_js_insert)

lemma map_of_acc_upd:
  "map_of (acc_upd k init f kvs) k' =
     (if k' = k then Some (f (case map_of kvs k of None \<Rightarrow> init | Some v \<Rightarrow> v)) else map_of kvs k')"
  by (induction kvs) auto

lemma keys_acc_upd:
  "map fst (acc_upd k init f kvs) = (if k \<in> set (map fst kvs) then map fst kvs else map fst kvs @ [k])"
proof (induction kvs)
  case Nil
  show ?case by simp
next
  case (Cons kv kvs)
  obtain k' v where kv: "kv = (k', v)" by (cases kv)
  show ?case
  proof (cases "k' = k")
    case True
    then show ?thesis by (simp add: kv)
  next
    case False
    then show ?thesis using Cons by (simp add: kv)
  qed
qed

lemma distinct_acc_upd: "distinct (map fst kvs) \<Longrightarrow> distinct (map fst (acc_upd k init f kvs))"
  by (simp add: keys_acc_upd)

lemma set_own_entries: "set (own_entries kvs) = set kvs"
  by (auto simp add: own_entries_def)

lemma own_entries_plain:
  "\<forall>e \<in> set kvs. array_index (fst e) = None \<Longrightarrow> own_entries kvs = kvs"
  by (simp add: own_entries_def filter_id_conv filter_empty_conv)

lemma not_digits_no_index: "c \<in> set k \<Longrightarrow> \<not> is_digit c \<Longrightarrow> array_index k = None"
  by (auto simp add: array_index_def list_all_iff)

lemma player_keys_plain:
  "array_index (row_key r) = None" "row_key r \<notin> set object_prototype_names"
proof -
  have bar: "CHR ''|'' \<in> set (row_key r)" by (simp add: row_key_def)
  show "array_index (row_key r) = None"
    by (rule not_digits_no_index [OF bar]) (simp add: is_digit_def)
  have "\<forall>n \<in> set object_prototype_names. CHR ''|'' \<notin> set n"
    by (simp add: object_prototype_names_def)
  then show "row_key r \<notin> set object_prototype_names" using bar by blast
qed

section \<open>Proofs: slip classification\<close>

lemma cards_snd: "map snd (cards p g) = g"
  by (simp add: cards_def map_snd_enumerate comp_def case_prod_unfold)

lemma cards_nth: "i < length g \<Longrightarrow> fst (cards p g ! i) = cardKey p i"
  by (simp add: cards_def nth_enumerate_eq)

lemma cards_keys: "fst ` set (cards p g) = cardKey p ` {..<length g}"
  by (force simp: cards_def in_set_enumerate_eq image_iff)

text \<open>
  Claim C9, as the code has it. The ladder page splits the slips by their \<^verbatim>\<open>type\<close> tag:
  the singles are the slips tagged \<^verbatim>\<open>"single"\<close>, the multis are all the others (tagged
  \<^verbatim>\<open>"multi"\<close> or not tagged), whatever their number of legs. The two groups together are
  the input, each keeps the input order, the card of the single at index \<open>i\<close> has key
  \<open>-(i+1)\<close>, the card of the multi at index \<open>j\<close> has key \<open>j\<close>, and no key is used in
  both groups.
\<close>

theorem classify_by_type_tag:
  "(\<forall>s \<in> set (singles ss). slip_type s = Some Single) \<and>
   (\<forall>s \<in> set (multis ss). slip_type s \<noteq> Some Single) \<and>
   mset (singles ss) + mset (multis ss) = mset ss \<and>
   subseq (singles ss) ss \<and> subseq (multis ss) ss \<and>
   map snd (single_cards ss) = singles ss \<and>
   map snd (multi_cards ss) = multis ss \<and>
   (\<forall>i < length (singles ss). fst (single_cards ss ! i) = - (int i + 1)) \<and>
   (\<forall>j < length (multis ss). fst (multi_cards ss ! j) = int j) \<and>
   fst ` set (single_cards ss) \<inter> fst ` set (multi_cards ss) = {}"
proof -
  have disj: "fst ` set (single_cards ss) \<inter> fst ` set (multi_cards ss) = {}"
    by (auto simp: single_cards_def multi_cards_def cards_keys cardKey_def)
  have part: "mset (singles ss) + mset (multis ss) = mset ss"
    by (simp add: singles_def multis_def)
  show ?thesis
    using disj part
    by (simp add: single_cards_def multi_cards_def cards_snd cards_nth cardKey_def)
       (simp add: singles_def multis_def)
qed

theorem classify_by_type_tag_witness:
  "slip_type \<lparr>summary = ''a'', legs = [\<lparr>leg_player_name = ''P'', leg_market_label = ''Points''\<rparr>],
              slip_type = Some Single\<rparr> = Some Single \<and>
   single_cards
     [\<lparr>summary = ''a'', legs = [\<lparr>leg_player_name = ''P'', leg_market_label = ''Points''\<rparr>],
       slip_type = Some Single\<rparr>,
      \<lparr>summary = ''b'', legs = [\<lparr>leg_player_name = ''P'', leg_market_label = ''Points''\<rparr>,
                              \<lparr>leg_player_name = ''Q'', leg_market_label = ''Assists''\<rparr>],
       slip_type = Some Multi\<rparr>,
      \<lparr>summary = ''c'', legs = [\<lparr>leg_player_name = ''Q'', leg_market_label = ''Assists''\<rparr>],
       slip_type = Some Single\<rparr>]
   = [(- 1, \<lparr>summary = ''a'', legs = [\<lparr>leg_player_name = ''P'', leg_market_label = ''Points''\<rparr>],
            slip_type = Some Single\<rparr>),
      (- 2, \<lparr>summary = ''c'', legs = [\<lparr>leg_player_name = ''Q'', leg_market_label = ''Assists''\<rparr>],
            slip_type = Some Single\<rparr>)] \<and>
   multi_cards
     [\<lparr>summary = ''a'', legs = [\<lparr>leg_player_name = ''P'', leg_market_label = ''Points''\<rparr>],
       slip_type = Some Single\<rparr>,
      \<lparr>summary = ''b'', legs = [\<lparr>leg_player_name = ''P'', leg_market_label = ''Points''\<rparr>,
                              \<lparr>leg_player_name = ''Q'', leg_market_label = ''Assists''\<rparr>],
       slip_type = Some Multi\<rparr>,
      \<lparr>summary = ''c'', legs = [\<lparr>leg_player_name = ''Q'', leg_market_label = ''Assists''\<rparr>],
       slip_type = Some Single\<rparr>]
   = [(0, \<lparr>summary = ''b'', legs = [\<lparr>leg_player_name = ''P'', leg_market_label = ''Points''\<rparr>,
                                   \<lparr>leg_player_name = ''Q'', leg_market_label = ''Assists''\<rparr>],
          slip_type = Some Multi\<rparr>)]"
  using classify_by_type_tag
    [of "[\<lparr>summary = ''a'', legs = [\<lparr>leg_player_name = ''P'', leg_market_label = ''Points''\<rparr>],
       slip_type = Some Single\<rparr>,
      \<lparr>summary = ''b'', legs = [\<lparr>leg_player_name = ''P'', leg_market_label = ''Points''\<rparr>,
                              \<lparr>leg_player_name = ''Q'', leg_market_label = ''Assists''\<rparr>],
       slip_type = Some Multi\<rparr>,
      \<lparr>summary = ''c'', legs = [\<lparr>leg_player_name = ''Q'', leg_market_label = ''Assists''\<rparr>],
       slip_type = Some Single\<rparr>]"]
  by (simp add: single_cards_def multi_cards_def cards_def cardKey_def singles_def multis_def
        enumerate_eq_zip upt_rec)

text \<open>
  Claim C9 as stated puts a slip with exactly one leg into the singles. The number of
  legs is not read by the filters: a slip with one leg and no \<^verbatim>\<open>type\<close> tag is a multi.
\<close>

theorem one_leg_slip_without_tag_is_multi:
  "length (legs \<lparr>summary = ''a'', legs = [\<lparr>leg_player_name = ''P'', leg_market_label = ''Points''\<rparr>],
                 slip_type = None\<rparr>) = 1 \<and>
   singles [\<lparr>summary = ''a'', legs = [\<lparr>leg_player_name = ''P'', leg_market_label = ''Points''\<rparr>],
             slip_type = None\<rparr>] = [] \<and>
   multis [\<lparr>summary = ''a'', legs = [\<lparr>leg_player_name = ''P'', leg_market_label = ''Points''\<rparr>],
            slip_type = None\<rparr>]
     = [\<lparr>summary = ''a'', legs = [\<lparr>leg_player_name = ''P'', leg_market_label = ''Points''\<rparr>],
         slip_type = None\<rparr>]"
  by (simp add: singles_def multis_def)

section \<open>Proofs: the player rollup\<close>

lemma lookup_player_step:
  "map_of (player_step acc r) k =
     (if k = row_key r
      then Some (player_visit r (case map_of acc k of None \<Rightarrow> player_init r | Some a \<Rightarrow> a))
      else map_of acc k)"
  by (simp add: player_step_def map_of_acc_upd)

lemma lookup_player_fold:
  "map_of (foldl player_step acc rows) k =
     (if group_rows k rows = [] then map_of acc k
      else Some (foldl (\<lambda>a r. player_visit r a)
                   (case map_of acc k of None \<Rightarrow> player_init (hd (group_rows k rows)) | Some a \<Rightarrow> a)
                   (group_rows k rows)))"
proof (induction rows arbitrary: acc)
  case Nil
  show ?case by (simp add: group_rows_def)
next
  case (Cons r rows)
  have "map_of (foldl player_step acc (r # rows)) k =
          map_of (foldl player_step (player_step acc r) rows) k"
    by simp
  also have "\<dots> = (if group_rows k rows = [] then map_of (player_step acc r) k
      else Some (foldl (\<lambda>a r. player_visit r a)
                   (case map_of (player_step acc r) k of
                      None \<Rightarrow> player_init (hd (group_rows k rows)) | Some a \<Rightarrow> a)
                   (group_rows k rows)))"
    by (rule Cons.IH)
  finally show ?case
    by (simp add: lookup_player_step group_rows_def split: option.splits)
qed

lemma distinct_player_fold:
  "distinct (map fst acc) \<Longrightarrow> distinct (map fst (foldl player_step acc rows))"
  by (induction rows arbitrary: acc) (simp_all add: player_step_def distinct_acc_upd)

lemma visits_names:
  "a_player (foldl (\<lambda>a r. player_visit r a) a rs) = a_player a \<and>
   a_market (foldl (\<lambda>a r. player_visit r a) a rs) = a_market a"
  by (induction rs arbitrary: a) (simp_all add: player_visit_def Let_def split: option.splits)

lemma visits_pending:
  "a_pending (foldl (\<lambda>a r. player_visit r a) a rs) =
     a_pending a + length (filter (\<lambda>r. leg_result r = None) rs)"
  by (induction rs arbitrary: a) (simp_all add: player_visit_def Let_def split: option.splits)

lemma visits_graded:
  "a_graded (foldl (\<lambda>a r. player_visit r a) a rs) =
     a_graded a + length (filter (\<lambda>r. leg_result r \<noteq> None) rs)"
  by (induction rs arbitrary: a) (simp_all add: player_visit_def Let_def split: option.splits)

lemma visits_hits:
  "a_hits (foldl (\<lambda>a r. player_visit r a) a rs) =
     a_hits a + length (filter (\<lambda>r. leg_result r = Some HIT) rs)"
  by (induction rs arbitrary: a) (simp_all add: player_visit_def Let_def split: option.splits)

lemma visits_scores:
  "a_scores (foldl (\<lambda>a r. player_visit r a) a rs) = a_scores a @ map score_or_zero rs"
  by (induction rs arbitrary: a) (simp_all add: player_visit_def Let_def split: option.splits)


lemma player_group_value:
  assumes "map_of (foldl player_step [] rows) k = Some v"
  shows "group_rows k rows \<noteq> []"
    and "v = foldl (\<lambda>a r. player_visit r a) (player_init (hd (group_rows k rows))) (group_rows k rows)"
  using assms by (simp_all add: lookup_player_fold split: if_splits)

lemma hd_group_key: "group_rows k rows \<noteq> [] \<Longrightarrow> row_key (hd (group_rows k rows)) = k"
proof -
  assume ne: "group_rows k rows \<noteq> []"
  then have "hd (group_rows k rows) \<in> set (group_rows k rows)" by (rule hd_in_set)
  then show ?thesis by (simp add: group_rows_def)
qed

lemma player_group_fields:
  assumes "map_of (foldl player_step [] rows) k = Some v"
  shows "a_player v @ ''||'' @ a_market v = k"
    and "a_pending v = length (filter (\<lambda>r. leg_result r = None) (group_rows k rows))"
    and "a_graded v = length (filter (\<lambda>r. leg_result r \<noteq> None) (group_rows k rows))"
    and "a_hits v = length (filter (\<lambda>r. leg_result r = Some HIT) (group_rows k rows))"
    and "a_scores v = map score_or_zero (group_rows k rows)"
proof -
  note gv = player_group_value [OF assms]
  have "a_player v @ ''||'' @ a_market v = row_key (hd (group_rows k rows))"
    by (subst (1 2) gv(2)) (simp add: visits_names player_init_def row_key_def)
  then show "a_player v @ ''||'' @ a_market v = k"
    by (simp add: hd_group_key [OF gv(1)])
  show "a_pending v = length (filter (\<lambda>r. leg_result r = None) (group_rows k rows))"
    by (subst gv(2)) (simp add: visits_pending player_init_def)
  show "a_graded v = length (filter (\<lambda>r. leg_result r \<noteq> None) (group_rows k rows))"
    by (subst gv(2)) (simp add: visits_graded player_init_def)
  show "a_hits v = length (filter (\<lambda>r. leg_result r = Some HIT) (group_rows k rows))"
    by (subst gv(2)) (simp add: visits_hits player_init_def)
  show "a_scores v = map score_or_zero (group_rows k rows)"
    by (subst gv(2)) (simp add: visits_scores player_init_def)
qed

lemma player_stats_entries:
  "g \<in> set (computePlayerStats rd rows) \<longleftrightarrow>
     (\<exists>k v. map_of (foldl player_step [] rows) k = Some v \<and> g = player_entry rd v)"
proof -
  have d: "distinct (map fst (foldl player_step [] rows))"
    by (rule distinct_player_fold) simp
  show ?thesis
    by (force simp: computePlayerStats_def set_js_sort map_of_eq_Some_iff [OF d] image_iff)
qed
lemma sum_scores_exact:
  "foldl (js_add Num) (Num a) (map Num xs) = Num (a + sum_list xs)"
  by (induction xs arbitrary: a) (simp_all add: add.assoc)

lemma mean_score_exact:
  "xs \<noteq> [] \<Longrightarrow> mean_score Num xs = Num (sum_list xs / of_nat (length xs))"
  using sum_scores_exact [of 0 xs] by (simp add: mean_score_def)

lemma hits_le_graded:
  "length (filter (\<lambda>r. leg_result r = Some HIT) rs)
     \<le> length (filter (\<lambda>r. leg_result r \<noteq> None) rs)"
  by (induction rs) auto

lemma player_stat_group:
  assumes "g \<in> set (computePlayerStats rd rows)"
  shows "group_rows (stat_key g) rows \<noteq> []"
    and "ps_avg_score g = js_round (mean_score rd (map score_or_zero (group_rows (stat_key g) rows)))"
    and "ps_hits g \<le> ps_total g"
proof -
  from assms obtain k v where kv: "map_of (foldl player_step [] rows) k = Some v"
    and g: "g = player_entry rd v"
    by (auto simp: player_stats_entries)
  note f = player_group_fields [OF kv]
  have key: "stat_key g = k"
    using f(1) by (simp add: stat_key_def g player_entry_def)
  show "group_rows (stat_key g) rows \<noteq> []"
    unfolding key by (rule player_group_value(1) [OF kv])
  show "ps_avg_score g = js_round (mean_score rd (map score_or_zero (group_rows (stat_key g) rows)))"
    unfolding key using f(5) by (simp add: g player_entry_def)
  have "length (filter (\<lambda>r. leg_result r = Some HIT) (group_rows k rows))
        \<le> length (filter (\<lambda>r. leg_result r \<noteq> None) (group_rows k rows))"
    by (rule hits_le_graded)
  then show "ps_hits g \<le> ps_total g"
    using f(3,4) by (simp add: g player_entry_def)
qed

lemma player_rows_example:
  "computePlayerStats Num
     [\<lparr>player_name = ''A'', market_label = ''Points'', value_score = Some 80, leg_result = Some HIT\<rparr>,
      \<lparr>player_name = ''A'', market_label = ''Points'', value_score = Some 60, leg_result = None\<rparr>]
   = [\<lparr>ps_player = ''A'', ps_market = ''Points'', ps_total = 1, ps_hits = 1,
       ps_hit_pct = Num 100, ps_avg_score = Num 70, ps_pending = 1\<rparr>]"
  by (simp add: computePlayerStats_def js_sort_def player_step_def player_init_def
        player_visit_def player_entry_def row_key_def score_or_zero_def mean_score_def
        floor_eq_iff)

lemma missing_score_example:
  "computePlayerStats Num
     [\<lparr>player_name = ''A'', market_label = ''Points'', value_score = Some 75, leg_result = Some HIT\<rparr>,
      \<lparr>player_name = ''A'', market_label = ''Points'', value_score = None, leg_result = Some MISS\<rparr>,
      \<lparr>player_name = ''A'', market_label = ''Points'', value_score = Some 60, leg_result = None\<rparr>]
   = [\<lparr>ps_player = ''A'', ps_market = ''Points'', ps_total = 2, ps_hits = 1,
       ps_hit_pct = Num 50, ps_avg_score = Num 45, ps_pending = 1\<rparr>]"
  by (simp add: computePlayerStats_def js_sort_def player_step_def player_init_def
        player_visit_def player_entry_def row_key_def score_or_zero_def mean_score_def
        floor_eq_iff)

lemma market_rows_example:
  "computeMarketStats Num
     [\<lparr>player_name = ''A'', market_label = ''Points'', value_score = Some 80, leg_result = Some HIT\<rparr>,
      \<lparr>player_name = ''B'', market_label = ''Points'', value_score = None, leg_result = Some MISS\<rparr>,
      \<lparr>player_name = ''A'', market_label = ''Points'', value_score = None, leg_result = None\<rparr>]
   = [\<lparr>ms_label = ''Points'', ms_total = 2, ms_hits = 1, ms_pct = Num 50\<rparr>]"
  by (simp add: computeMarketStats_def js_sort_def market_step_def market_entry_def floor_eq_iff
        object_prototype_names_def own_entries_def array_index_def is_digit_def)

text \<open>
  The keys of the market rollup as JavaScript lists them: the label \<^verbatim>\<open>"7"\<close> is an array
  index and comes before \<^verbatim>\<open>"Points"\<close>, which was created first, and the row with the label
  \<^verbatim>\<open>"constructor"\<close> is in no entry.
\<close>

lemma market_labels_as_object_keys:
  "computeMarketStats Num
     [\<lparr>player_name = ''A'', market_label = ''Points'', value_score = None, leg_result = Some HIT\<rparr>,
      \<lparr>player_name = ''B'', market_label = ''constructor'', value_score = None,
        leg_result = Some HIT\<rparr>,
      \<lparr>player_name = ''C'', market_label = ''7'', value_score = None, leg_result = Some HIT\<rparr>]
   = [\<lparr>ms_label = ''7'', ms_total = 1, ms_hits = 1, ms_pct = Num 100\<rparr>,
      \<lparr>ms_label = ''Points'', ms_total = 1, ms_hits = 1, ms_pct = Num 100\<rparr>]"
proof -
  have half: "\<lfloor>201 / 2 :: rat\<rfloor> = 100" by (simp add: floor_eq_iff)
  show ?thesis
    by (simp add: computeMarketStats_def js_sort_def js_sub_def market_step_def
          market_entry_def half
          object_prototype_names_def own_entries_def array_index_def is_digit_def
          decimal_value_def digit_value_def index_or_zero_def)
qed

text \<open>
  Claim C7. In the rollup per player and market, the group of an output entry is the rows
  with its key. Its \<open>pending\<close> counter is the number of rows of the group with a null
  result; \<open>total\<close> (the denominator of the hit rate) counts the graded rows only and
  \<open>hits\<close> the rows graded \<^verbatim>\<open>HIT\<close>, so a pending row is in neither; the hit rate is
  computed from these two; the average score is taken over the scores of all rows of the
  group, pending ones included. Every input row has an entry for its group.
\<close>

theorem pending_in_player_rollup:
  "(\<forall>g \<in> set (computePlayerStats rd rows).
      ps_pending g = length (filter (\<lambda>r. leg_result r = None) (group_rows (stat_key g) rows)) \<and>
      ps_total g = length (filter (\<lambda>r. leg_result r \<noteq> None) (group_rows (stat_key g) rows)) \<and>
      ps_hits g = length (filter (\<lambda>r. leg_result r = Some HIT) (group_rows (stat_key g) rows)) \<and>
      ps_hit_pct g =
        (if ps_total g \<noteq> 0
         then js_round (js_mul rd (js_div rd (Num (of_nat (ps_hits g))) (Num (of_nat (ps_total g)))) (Num 100))
         else Num 0) \<and>
      ps_avg_score g = js_round (mean_score rd (map score_or_zero (group_rows (stat_key g) rows)))) \<and>
   (\<forall>r \<in> set rows. \<exists>g \<in> set (computePlayerStats rd rows). stat_key g = row_key r)"
  (is "(\<forall>g \<in> ?out. ?P g) \<and> ?Q")
proof (rule conjI)
  show "\<forall>g \<in> ?out. ?P g"
  proof (rule ballI)
    fix g assume "g \<in> ?out"
    then obtain k v where kv: "map_of (foldl player_step [] rows) k = Some v"
      and g: "g = player_entry rd v"
      by (auto simp: player_stats_entries)
    note f = player_group_fields [OF kv]
    have key: "stat_key g = k"
      using f(1) by (simp add: stat_key_def g player_entry_def)
    show "?P g"
      unfolding key using f(2-5) by (simp add: g player_entry_def)
  qed
  show ?Q
  proof (rule ballI)
    fix r assume r: "r \<in> set rows"
    have "group_rows (row_key r) rows \<noteq> []"
      using r by (auto simp: group_rows_def filter_empty_conv)
    then obtain v where kv: "map_of (foldl player_step [] rows) (row_key r) = Some v"
      by (simp add: lookup_player_fold)
    have "player_entry rd v \<in> ?out"
      using kv by (auto simp: player_stats_entries)
    moreover have "stat_key (player_entry rd v) = row_key r"
      using player_group_fields(1) [OF kv] by (simp add: stat_key_def player_entry_def)
    ultimately show "\<exists>g \<in> ?out. stat_key g = row_key r"
      by blast
  qed
qed

theorem pending_in_player_rollup_witness:
  "\<lparr>ps_player = ''A'', ps_market = ''Points'', ps_total = 1, ps_hits = 1,
     ps_hit_pct = Num 100, ps_avg_score = Num 70, ps_pending = 1\<rparr>
   \<in> set (computePlayerStats Num
     [\<lparr>player_name = ''A'', market_label = ''Points'', value_score = Some 80, leg_result = Some HIT\<rparr>,
      \<lparr>player_name = ''A'', market_label = ''Points'', value_score = Some 60, leg_result = None\<rparr>]) \<and>
   length (group_rows ''A||Points''
     [\<lparr>player_name = ''A'', market_label = ''Points'', value_score = Some 80, leg_result = Some HIT\<rparr>,
      \<lparr>player_name = ''A'', market_label = ''Points'', value_score = Some 60, leg_result = None\<rparr>]) = 2 \<and>
   js_round (mean_score Num [80, 60]) = Num 70"
  using pending_in_player_rollup [of Num
     "[\<lparr>player_name = ''A'', market_label = ''Points'', value_score = Some 80, leg_result = Some HIT\<rparr>,
      \<lparr>player_name = ''A'', market_label = ''Points'', value_score = Some 60, leg_result = None\<rparr>]"]
  by (simp add: player_rows_example stat_key_def group_rows_def row_key_def score_or_zero_def)

text \<open>
  Claim C10. The average score of a group is \<^verbatim>\<open>Math.round\<close> of the mean of the scores of
  all rows of the group, graded or pending, where a row without a value score counts as
  0 and is not left out. With exact arithmetic this is the sum of the scores (missing
  ones as 0) divided by the number of rows of the group, rounded to the nearest integer.
\<close>

theorem missing_score_counts_as_zero:
  "(\<forall>g \<in> set (computePlayerStats rd rows).
      ps_avg_score g = js_round (mean_score rd (map score_or_zero (group_rows (stat_key g) rows)))) \<and>
   (\<forall>g \<in> set (computePlayerStats Num rows).
      ps_avg_score g =
        Num (of_int \<lfloor>sum_list (map score_or_zero (group_rows (stat_key g) rows))
                       / of_nat (length (group_rows (stat_key g) rows)) + 1 / 2\<rfloor>)) \<and>
   (\<forall>r. value_score r = None \<longrightarrow> score_or_zero r = 0)"
proof (intro conjI ballI allI impI)
  fix g assume "g \<in> set (computePlayerStats rd rows)"
  then show "ps_avg_score g = js_round (mean_score rd (map score_or_zero (group_rows (stat_key g) rows)))"
    by (rule player_stat_group(2))
next
  fix g assume g: "g \<in> set (computePlayerStats Num rows)"
  have ne: "map score_or_zero (group_rows (stat_key g) rows) \<noteq> []"
    using player_stat_group(1) [OF g] by simp
  show "ps_avg_score g =
        Num (of_int \<lfloor>sum_list (map score_or_zero (group_rows (stat_key g) rows))
                       / of_nat (length (group_rows (stat_key g) rows)) + 1 / 2\<rfloor>)"
    using mean_score_exact [OF ne] by (simp add: player_stat_group(2) [OF g])
next
  fix r :: PropResult assume "value_score r = None"
  then show "score_or_zero r = 0" by (simp add: score_or_zero_def)
qed

theorem missing_score_counts_as_zero_witness:
  "\<lparr>ps_player = ''A'', ps_market = ''Points'', ps_total = 2, ps_hits = 1,
     ps_hit_pct = Num 50, ps_avg_score = Num 45, ps_pending = 1\<rparr>
   \<in> set (computePlayerStats Num
     [\<lparr>player_name = ''A'', market_label = ''Points'', value_score = Some 75, leg_result = Some HIT\<rparr>,
      \<lparr>player_name = ''A'', market_label = ''Points'', value_score = None, leg_result = Some MISS\<rparr>,
      \<lparr>player_name = ''A'', market_label = ''Points'', value_score = Some 60, leg_result = None\<rparr>]) \<and>
   value_score \<lparr>player_name = ''A'', market_label = ''Points'', value_score = None,
                leg_result = Some MISS\<rparr> = None \<and>
   Num 45 = Num (of_int \<lfloor>(75 + 0 + 60) / 3 + 1 / 2\<rfloor>)"
  using missing_score_counts_as_zero [of Num
     "[\<lparr>player_name = ''A'', market_label = ''Points'', value_score = Some 75, leg_result = Some HIT\<rparr>,
      \<lparr>player_name = ''A'', market_label = ''Points'', value_score = None, leg_result = Some MISS\<rparr>,
      \<lparr>player_name = ''A'', market_label = ''Points'', value_score = Some 60, leg_result = None\<rparr>]"]
  by (simp add: missing_score_example floor_eq_iff)

section \<open>Proofs: rates\<close>

lemma js_le_between:
  assumes "js_le (Num a) v" and "js_le v (Num b)"
  obtains r where "v = Num r" and "a \<le> r" and "r \<le> b"
  using assms by (cases v) simp_all

lemma rate_bounds:
  assumes dr: "double_rounding rd" and h: "0 \<le> h" "h \<le> t" and t: "t \<noteq> 0"
  shows "\<exists>p. js_round (js_mul rd (js_div rd (Num h) (Num t)) (Num 100)) = Num p \<and> 0 \<le> p \<and> p \<le> 100"
proof -
  have mono: "\<And>x y. x \<le> y \<Longrightarrow> js_le (rd x) (rd y)"
    using dr by (simp add: double_rounding_def)
  have fix_int: "\<And>n::int. \<bar>n\<bar> \<le> 2 ^ 53 \<Longrightarrow> rd (of_int n) = Num (of_int n)"
    using dr by (simp add: double_rounding_def)
  have r0: "rd 0 = Num 0" using fix_int [of 0] by simp
  have r1: "rd 1 = Num 1" using fix_int [of 1] by simp
  have r100: "rd 100 = Num 100" using fix_int [of 100] by simp
  have tpos: "0 < t" using h t by simp
  have q: "0 \<le> h / t" "h / t \<le> 1" using h tpos by simp_all
  have "js_le (Num 0) (rd (h / t))" "js_le (rd (h / t)) (Num 1)"
    using mono [OF q(1)] mono [OF q(2)] by (simp_all add: r0 r1)
  then obtain r where r: "rd (h / t) = Num r" "0 \<le> r" "r \<le> 1"
    by (rule js_le_between)
  have m: "0 \<le> r * 100" "r * 100 \<le> 100" using r(2,3) by simp_all
  have "js_le (Num 0) (rd (r * 100))" "js_le (rd (r * 100)) (Num 100)"
    using mono [OF m(1)] mono [OF m(2)] by (simp_all add: r0 r100)
  then obtain p where p: "rd (r * 100) = Num p" "0 \<le> p" "p \<le> 100"
    by (rule js_le_between)
  have "(0::int) \<le> \<lfloor>p + 1 / 2\<rfloor>" using p(2) by simp
  moreover have "\<lfloor>p + 1 / 2\<rfloor> \<le> (100::int)"
    using p(3) by (simp add: floor_le_iff)
  ultimately show ?thesis using t by (simp add: r(1) p(1))
qed

lemma acc_upd_values:
  assumes "\<forall>v \<in> snd ` set kvs. P v" and "P (f init)" and "\<And>v. P v \<Longrightarrow> P (f v)"
  shows "\<forall>v \<in> snd ` set (acc_upd k init f kvs). P v"
  using assms(1)
proof (induction kvs)
  case Nil
  show ?case using assms(2) by simp
next
  case (Cons kv kvs)
  obtain k' v where kv: "kv = (k', v)" by (cases kv)
  show ?case using Cons assms(3) by (auto simp: kv)
qed

lemma market_step_inv:
  assumes "\<forall>v \<in> snd ` set acc. m_hits v \<le> m_total v \<and> m_total v \<noteq> 0"
  shows "\<forall>v \<in> snd ` set (market_step acc r). m_hits v \<le> m_total v \<and> m_total v \<noteq> 0"
proof (cases "leg_result r")
  case None
  then show ?thesis using assms by (simp add: market_step_def)
next
  case (Some res)
  show ?thesis
  proof (cases "market_label r \<in> set object_prototype_names")
    case True
    then show ?thesis using assms by (simp add: market_step_def Some)
  next
    case False
    show ?thesis
      unfolding market_step_def Some option.case if_not_P [OF False]
      by (rule acc_upd_values [OF assms]) auto
  qed
qed

lemma market_fold_inv:
  "\<forall>v \<in> snd ` set acc. m_hits v \<le> m_total v \<and> m_total v \<noteq> 0 \<Longrightarrow>
   \<forall>v \<in> snd ` set (foldl market_step acc rows). m_hits v \<le> m_total v \<and> m_total v \<noteq> 0"
proof (induction rows arbitrary: acc)
  case Nil
  then show ?case by simp
next
  case (Cons r rows)
  show ?case using Cons.IH [OF market_step_inv [OF Cons.prems]] by simp
qed

lemma market_stats_entries:
  assumes "g \<in> set (computeMarketStats rd rows)"
  obtains label v where "g = market_entry rd (label, v)" "m_hits v \<le> m_total v" "m_total v \<noteq> 0"
proof -
  from assms obtain e where e: "e \<in> set (foldl market_step [] rows)" and g: "g = market_entry rd e"
    by (auto simp: computeMarketStats_def set_js_sort set_own_entries)
  have "\<forall>v \<in> snd ` set (foldl market_step [] rows). m_hits v \<le> m_total v \<and> m_total v \<noteq> 0"
    by (rule market_fold_inv) simp
  then have "m_hits (snd e) \<le> m_total (snd e) \<and> m_total (snd e) \<noteq> 0" using e by simp
  then show thesis using that [of "fst e" "snd e"] g by simp
qed

text \<open>
  Claim C8. For a rounding of doubles, every entry of the market rollup and of the player
  rollup has \<open>hits \<le> total\<close> and a rate that is a finite number between 0 and 100. An
  entry of the market rollup has \<open>total > 0\<close>, a group being created by a graded row; an
  entry of the player rollup can have \<open>total = 0\<close> (all its rows pending), and then its
  rate is 0: the division is guarded by \<open>total\<close>. The helper \<open>pct\<close> of the analytics page,
  given counts with \<open>0 \<le> hits \<le> total\<close>, returns a finite number between 0 and 100, and
  returns 0 for \<open>total = 0\<close> whatever \<open>hits\<close> is. (The buckets of the analytics page
  arrive with their counts from the server; \<open>hits \<le> total\<close> is a property of that data.)
\<close>

theorem rates_bounded:
  assumes "double_rounding rd"
  shows "(\<forall>g \<in> set (computeMarketStats rd rows).
            ms_hits g \<le> ms_total g \<and> 0 < ms_total g \<and>
            (\<exists>p. ms_pct g = Num p \<and> 0 \<le> p \<and> p \<le> 100)) \<and>
         (\<forall>g \<in> set (computePlayerStats rd rows).
            ps_hits g \<le> ps_total g \<and> (\<exists>p. ps_hit_pct g = Num p \<and> 0 \<le> p \<and> p \<le> 100) \<and>
            (ps_total g = 0 \<longrightarrow> ps_hit_pct g = Num 0)) \<and>
         (\<forall>h t. 0 \<le> h \<and> h \<le> t \<longrightarrow> (\<exists>p. pct rd (Num h) (Num t) = Num p \<and> 0 \<le> p \<and> p \<le> 100)) \<and>
         (\<forall>h. pct rd h (Num 0) = Num 0)"
  (is "?M \<and> ?P \<and> ?A \<and> ?Z")
proof -
  have M: ?M
  proof (rule ballI)
    fix g assume "g \<in> set (computeMarketStats rd rows)"
    then obtain label v where g: "g = market_entry rd (label, v)"
      and le: "m_hits v \<le> m_total v" and ne: "m_total v \<noteq> 0"
      by (rule market_stats_entries)
    have "\<exists>p. js_round (js_mul rd (js_div rd (Num (of_nat (m_hits v))) (Num (of_nat (m_total v))))
                  (Num 100)) = Num p \<and> 0 \<le> p \<and> p \<le> 100"
      by (rule rate_bounds [OF assms]) (use le ne in simp_all)
    then show "ms_hits g \<le> ms_total g \<and> 0 < ms_total g \<and>
            (\<exists>p. ms_pct g = Num p \<and> 0 \<le> p \<and> p \<le> 100)"
      using le ne by (simp add: g market_entry_def)
  qed
  have P: ?P
  proof (rule ballI)
    fix g assume gin: "g \<in> set (computePlayerStats rd rows)"
    then obtain k v where g: "g = player_entry rd v"
      by (auto simp: player_stats_entries)
    have le: "ps_hits g \<le> ps_total g" by (rule player_stat_group(3) [OF gin])
    have pc: "\<exists>p. ps_hit_pct g = Num p \<and> 0 \<le> p \<and> p \<le> 100"
    proof (cases "a_graded v = 0")
      case True
      then show ?thesis by (simp add: g player_entry_def)
    next
      case False
      have "\<exists>p. js_round (js_mul rd (js_div rd (Num (of_nat (a_hits v))) (Num (of_nat (a_graded v))))
                  (Num 100)) = Num p \<and> 0 \<le> p \<and> p \<le> 100"
        by (rule rate_bounds [OF assms]) (use le False in \<open>simp_all add: g player_entry_def\<close>)
      then show ?thesis using False by (simp add: g player_entry_def)
    qed
    show "ps_hits g \<le> ps_total g \<and> (\<exists>p. ps_hit_pct g = Num p \<and> 0 \<le> p \<and> p \<le> 100) \<and>
            (ps_total g = 0 \<longrightarrow> ps_hit_pct g = Num 0)"
      using le pc by (simp add: g player_entry_def)
  qed
  have A: ?A
  proof (intro allI impI)
    fix h t :: rat assume ht: "0 \<le> h \<and> h \<le> t"
    show "\<exists>p. pct rd (Num h) (Num t) = Num p \<and> 0 \<le> p \<and> p \<le> 100"
    proof (cases "t = 0")
      case True
      then show ?thesis by (simp add: pct_def)
    next
      case False
      from rate_bounds [OF assms _ _ False, of h] ht False show ?thesis
        by (simp add: pct_def)
    qed
  qed
  have Z: ?Z by (simp add: pct_def)
  from M P A Z show ?thesis by blast
qed

theorem rates_bounded_witness:
  "double_rounding Num \<and>
   computeMarketStats Num
     [\<lparr>player_name = ''A'', market_label = ''Points'', value_score = Some 80, leg_result = Some HIT\<rparr>,
      \<lparr>player_name = ''B'', market_label = ''Points'', value_score = None, leg_result = Some MISS\<rparr>,
      \<lparr>player_name = ''A'', market_label = ''Points'', value_score = None, leg_result = None\<rparr>]
   = [\<lparr>ms_label = ''Points'', ms_total = 2, ms_hits = 1, ms_pct = Num 50\<rparr>] \<and>
   computePlayerStats Num
     [\<lparr>player_name = ''A'', market_label = ''Points'', value_score = Some 60, leg_result = None\<rparr>]
   = [\<lparr>ps_player = ''A'', ps_market = ''Points'', ps_total = 0, ps_hits = 0,
       ps_hit_pct = Num 0, ps_avg_score = Num 60, ps_pending = 1\<rparr>] \<and>
   pct Num (Num 1) (Num 3) = Num 33 \<and> pct Num (Num 1) (Num 0) = Num 0"
proof -
  have dr: "double_rounding Num"
    by (simp add: double_rounding_def)
  have pending: "computePlayerStats Num
     [\<lparr>player_name = ''A'', market_label = ''Points'', value_score = Some 60, leg_result = None\<rparr>]
   = [\<lparr>ps_player = ''A'', ps_market = ''Points'', ps_total = 0, ps_hits = 0,
       ps_hit_pct = Num 0, ps_avg_score = Num 60, ps_pending = 1\<rparr>]"
    by (simp add: computePlayerStats_def js_sort_def player_step_def player_init_def
          player_visit_def player_entry_def row_key_def score_or_zero_def mean_score_def
          floor_eq_iff)
  show ?thesis
    using dr pending rates_bounded [OF dr, of
     "[\<lparr>player_name = ''A'', market_label = ''Points'', value_score = Some 80, leg_result = Some HIT\<rparr>,
      \<lparr>player_name = ''B'', market_label = ''Points'', value_score = None, leg_result = Some MISS\<rparr>,
      \<lparr>player_name = ''A'', market_label = ''Points'', value_score = None, leg_result = None\<rparr>]"]
    by (simp add: market_rows_example pct_def floor_eq_iff)
qed

text \<open>
  The bound is one of the rates. The average score is a sum of scores divided by their
  number, and the sum of two finite doubles can be an infinity: with the rounding
  \<open>overflowing\<close>, which is a rounding of doubles, two rows with the score \<open>2 ^ 1023\<close> give
  an average score that is infinite.
\<close>

lemma overflowing_rounding: "double_rounding overflowing"
proof -
  have big: "(2::rat) ^ 53 \<le> (2 ^ 53 - 1) * 2 ^ 971"
  proof -
    have "(2::rat) ^ 53 = 2 ^ 52 * 2 ^ 1" by (simp only: power_add [symmetric]) simp
    also have "\<dots> \<le> (2 ^ 53 - 1) * 2 ^ 971"
      by (rule mult_mono) (simp_all add: power_increasing)
    finally show ?thesis .
  qed
  have mono: "js_le (overflowing x) (overflowing y)" if "x \<le> y" for x y
    using that by (auto simp: overflowing_def)
  have fixed: "overflowing (of_int n) = Num (of_int n)" if "\<bar>n\<bar> \<le> 2 ^ 53" for n :: int
  proof -
    have "\<bar>of_int n :: rat\<bar> \<le> 2 ^ 53"
      using that by (metis of_int_abs of_int_le_iff of_int_numeral of_int_power)
    then have "\<not> (2 ^ 53 - 1) * 2 ^ 971 < \<bar>of_int n :: rat\<bar>" using big by linarith
    then show ?thesis by (simp add: overflowing_def)
  qed
  show ?thesis
    unfolding double_rounding_def using mono fixed by blast
qed

lemma average_of_two_overflowing:
  assumes "rd v = Num v" and "rd (v + v) = PosInf"
  shows "map ps_avg_score
     (computePlayerStats rd
        [\<lparr>player_name = ''A'', market_label = ''Points'', value_score = Some v,
          leg_result = Some HIT\<rparr>,
         \<lparr>player_name = ''A'', market_label = ''Points'', value_score = Some v,
          leg_result = Some HIT\<rparr>]) = [PosInf]"
proof -
  have mean: "mean_score rd [v, v] = PosInf"
    using assms by (simp add: mean_score_def)
  show ?thesis
    by (simp add: computePlayerStats_def js_sort_def player_step_def player_init_def
          player_visit_def player_entry_def row_key_def score_or_zero_def mean)
qed

lemma average_score_can_overflow:
  "map ps_avg_score
     (computePlayerStats overflowing
        [\<lparr>player_name = ''A'', market_label = ''Points'', value_score = Some (2 ^ 1023),
          leg_result = Some HIT\<rparr>,
         \<lparr>player_name = ''A'', market_label = ''Points'', value_score = Some (2 ^ 1023),
          leg_result = Some HIT\<rparr>]) = [PosInf]"
proof -
  have small: "\<not> (2 ^ 53 - 1) * 2 ^ 971 < \<bar>(2::rat) ^ 1023\<bar>"
  proof -
    have "(2::rat) ^ 1023 = 2 ^ 52 * 2 ^ 971" by (simp only: power_add [symmetric]) simp
    also have "\<dots> \<le> (2 ^ 53 - 1) * 2 ^ 971"
      by (rule mult_mono) simp_all
    finally show ?thesis by simp
  qed
  have large: "(2 ^ 53 - 1) * 2 ^ 971 < \<bar>(2::rat) ^ 1023 + 2 ^ 1023\<bar>"
  proof -
    have "(2 ^ 53 - 1) * 2 ^ 971 < (2::rat) ^ 53 * 2 ^ 971"
      by (rule mult_strict_right_mono) simp_all
    also have "\<dots> = 2 ^ 1023 + 2 ^ 1023" by (simp only: power_add [symmetric]) simp
    finally show ?thesis by simp
  qed
  have first: "overflowing (2 ^ 1023) = Num (2 ^ 1023)"
    using small by (simp add: overflowing_def)
  have second: "overflowing (2 ^ 1023 + 2 ^ 1023) = PosInf"
    using large by (simp add: overflowing_def)
  show ?thesis
    by (rule average_of_two_overflowing [OF first second])
qed

section \<open>Proofs: the poll loops\<close>

lemma check_run_ticks_idle: "intervals (c_timers s) = [] \<Longrightarrow> check_run_ticks k rs s = s"
  by (cases rs) simp_all

lemma check_tick_rejected:
  "check_tick_resume k Rejected (check_tick_begin s) =
     s\<lparr>c_status_fetches := c_status_fetches s + 1\<rparr>"
  by (simp add: check_tick_resume_def check_tick_begin_def)

lemma check_tick_running:
  assumes "c_mounted s" and "rs_status st = R_running"
  shows "check_tick_resume k (Resolved st) (check_tick_begin s) =
           s\<lparr>c_status_fetches := c_status_fetches s + 1, checkStatus := Some st\<rparr>"
  using assms by (simp add: check_tick_resume_def check_tick_begin_def check_setState_def)

lemma check_tick_terminal:
  assumes "check_polling h s" and "rs_status st \<noteq> R_running"
  shows "check_tick_resume k (Resolved st) (check_tick_begin s) =
           s\<lparr>checkStatus := Some st, checking := False,
             checkPollRef := (if k = PropResultsPage then None else Some h),
             c_timers := (c_timers s)\<lparr>intervals := []\<rparr>,
             c_status_fetches := c_status_fetches s + 1,
             c_terminal_runs := c_terminal_runs s + 1,
             c_load_calls := c_load_calls s + (if rs_status st = R_done then 1 else 0)\<rparr>"
  using assms
  by (simp add: check_tick_resume_def check_tick_begin_def check_polling_def clearInterval_def
        check_load_def check_setState_def Let_def)

lemma check_loop_run:
  assumes "check_polling h s"
    and "\<forall>r \<in> set rs. r = Rejected \<or> (\<exists>x. r = Resolved x \<and> rs_status x = R_running)"
    and "rs_status t \<noteq> R_running"
  shows "check_run_ticks k (rs @ Resolved t # later) s =
           s\<lparr>checkStatus := Some t, checking := False,
             checkPollRef := (if k = PropResultsPage then None else Some h),
             c_timers := (c_timers s)\<lparr>intervals := []\<rparr>,
             c_status_fetches := c_status_fetches s + length rs + 1,
             c_terminal_runs := c_terminal_runs s + 1,
             c_load_calls := c_load_calls s + (if rs_status t = R_done then 1 else 0)\<rparr>"
  using assms(1,2)
proof (induction rs arbitrary: s)
  case Nil
  have act: "intervals (c_timers s) \<noteq> []" using Nil.prems(1) by (simp add: check_polling_def)
  show ?case
    using act by (simp add: check_tick_terminal [OF Nil.prems(1) assms(3)] check_run_ticks_idle)
next
  case (Cons r rs)
  have act: "intervals (c_timers s) \<noteq> []" using Cons.prems(1) by (simp add: check_polling_def)
  have mnt: "c_mounted s" using Cons.prems(1) by (simp add: check_polling_def)
  have rest: "\<forall>r \<in> set rs. r = Rejected \<or> (\<exists>x. r = Resolved x \<and> rs_status x = R_running)"
    using Cons.prems(2) by simp
  have ih: "check_polling h s1 \<Longrightarrow>
      check_run_ticks k (rs @ Resolved t # later) s1 =
        s1\<lparr>checkStatus := Some t, checking := False,
             checkPollRef := (if k = PropResultsPage then None else Some h),
             c_timers := (c_timers s1)\<lparr>intervals := []\<rparr>,
             c_status_fetches := c_status_fetches s1 + length rs + 1,
             c_terminal_runs := c_terminal_runs s1 + 1,
             c_load_calls := c_load_calls s1 + (if rs_status t = R_done then 1 else 0)\<rparr>" for s1
    by (rule Cons.IH [OF _ rest])
  show ?case
  proof (cases r)
    case Rejected
    let ?s1 = "s\<lparr>c_status_fetches := c_status_fetches s + 1\<rparr>"
    have p1: "check_polling h ?s1" using Cons.prems(1) by (simp add: check_polling_def)
    have "check_run_ticks k ((r # rs) @ Resolved t # later) s =
            check_run_ticks k (rs @ Resolved t # later) ?s1"
      using act by (simp add: Rejected check_tick_rejected)
    also note ih [OF p1]
    finally show ?thesis by simp
  next
    case (Resolved x)
    then have run: "rs_status x = R_running" using Cons.prems(2) by simp
    let ?s1 = "s\<lparr>c_status_fetches := c_status_fetches s + 1, checkStatus := Some x\<rparr>"
    have p1: "check_polling h ?s1" using Cons.prems(1) by (simp add: check_polling_def)
    have "check_run_ticks k ((r # rs) @ Resolved t # later) s =
            check_run_ticks k (rs @ Resolved t # later) ?s1"
      using act by (simp add: Resolved check_tick_running [OF mnt run])
    also note ih [OF p1]
    finally show ?thesis by simp
  qed
qed


lemma ladder_dep_upd:
  "ladder_dep (s\<lparr>l_status := x\<rparr>) = map_option ls_status x"
  "ladder_dep (s\<lparr>l_mounted := b\<rparr>) = ladder_dep s"
  "ladder_dep (s\<lparr>slips := sl\<rparr>) = ladder_dep s"
  "ladder_dep (s\<lparr>expanded := e\<rparr>) = ladder_dep s"
  "ladder_dep (s\<lparr>triggering := b\<rparr>) = ladder_dep s"
  "ladder_dep (s\<lparr>pollRef := p\<rparr>) = ladder_dep s"
  "ladder_dep (s\<lparr>l_timers := tm\<rparr>) = ladder_dep s"
  "ladder_dep (s\<lparr>l_trigger_calls := n\<rparr>) = ladder_dep s"
  "ladder_dep (s\<lparr>l_status_fetches := n\<rparr>) = ladder_dep s"
  "ladder_dep (s\<lparr>l_results_fetches := n\<rparr>) = ladder_dep s"
  "ladder_dep (s\<lparr>l_console_errors := n\<rparr>) = ladder_dep s"
  "ladder_dep (s\<lparr>l_terminal_runs := n\<rparr>) = ladder_dep s"
  by (simp_all add: ladder_dep_def)

lemma ladder_run_ticks_idle: "intervals (l_timers s) = [] \<Longrightarrow> ladder_run_ticks rs s = s"
  by (cases rs) simp_all

lemma ladder_tick_rejected:
  "ladder_tick_resume Rejected (ladder_tick_begin s) =
     s\<lparr>l_status_fetches := l_status_fetches s + 1\<rparr>"
  by (simp add: ladder_tick_resume_def ladder_tick_begin_def)

lemma ladder_tick_running:
  assumes "ladder_polling h s" and "ls_status st = L_running"
  shows "ladder_tick_resume (Resolved st) (ladder_tick_begin s) =
           s\<lparr>l_status_fetches := l_status_fetches s + 1, l_status := Some st\<rparr>"
  using assms
  by (simp add: ladder_tick_resume_def ladder_tick_begin_def ladder_polling_def ladder_commit_def
        ladder_dep_upd ladder_setState_def Let_def)

lemma ladder_tick_terminal:
  assumes "ladder_polling h s" and "ls_status st \<noteq> L_running"
  shows "ladder_tick_resume (Resolved st) (ladder_tick_begin s) =
           s\<lparr>l_status := Some st,
             l_timers := (l_timers s)\<lparr>intervals := []\<rparr>,
             l_status_fetches := l_status_fetches s + 1,
             l_terminal_runs := l_terminal_runs s + 1,
             l_results_fetches := l_results_fetches s + (if ls_status st = L_done then 1 else 0)\<rparr>"
  using assms
  by (simp add: ladder_tick_resume_def ladder_tick_begin_def ladder_polling_def ladder_commit_def
        ladder_dep_upd ladder_setState_def poll_cleanup_def poll_effect_def clearInterval_def
        Let_def)

lemma ladder_loop_run:
  assumes "ladder_polling h s"
    and "\<forall>r \<in> set rs. r = Rejected \<or> (\<exists>x. r = Resolved x \<and> ls_status x = L_running)"
    and "ls_status t \<noteq> L_running"
  shows "ladder_run_ticks (rs @ Resolved t # later) s =
           s\<lparr>l_status := Some t,
             l_timers := (l_timers s)\<lparr>intervals := []\<rparr>,
             l_status_fetches := l_status_fetches s + length rs + 1,
             l_terminal_runs := l_terminal_runs s + 1,
             l_results_fetches := l_results_fetches s + (if ls_status t = L_done then 1 else 0)\<rparr>"
  using assms(1,2)
proof (induction rs arbitrary: s)
  case Nil
  have act: "intervals (l_timers s) \<noteq> []" using Nil.prems(1) by (simp add: ladder_polling_def)
  show ?case
    using act by (simp add: ladder_tick_terminal [OF Nil.prems(1) assms(3)] ladder_run_ticks_idle)
next
  case (Cons r rs)
  have act: "intervals (l_timers s) \<noteq> []" using Cons.prems(1) by (simp add: ladder_polling_def)
  have rest: "\<forall>r \<in> set rs. r = Rejected \<or> (\<exists>x. r = Resolved x \<and> ls_status x = L_running)"
    using Cons.prems(2) by simp
  have ih: "ladder_polling h s1 \<Longrightarrow>
      ladder_run_ticks (rs @ Resolved t # later) s1 =
        s1\<lparr>l_status := Some t,
             l_timers := (l_timers s1)\<lparr>intervals := []\<rparr>,
             l_status_fetches := l_status_fetches s1 + length rs + 1,
             l_terminal_runs := l_terminal_runs s1 + 1,
             l_results_fetches := l_results_fetches s1 + (if ls_status t = L_done then 1 else 0)\<rparr>" for s1
    by (rule Cons.IH [OF _ rest])
  show ?case
  proof (cases r)
    case Rejected
    let ?s1 = "s\<lparr>l_status_fetches := l_status_fetches s + 1\<rparr>"
    have p1: "ladder_polling h ?s1"
      using Cons.prems(1) by (simp add: ladder_polling_def ladder_dep_upd)
    have "ladder_run_ticks ((r # rs) @ Resolved t # later) s =
            ladder_run_ticks (rs @ Resolved t # later) ?s1"
      using act by (simp add: Rejected ladder_tick_rejected)
    also note ih [OF p1]
    finally show ?thesis by simp
  next
    case (Resolved x)
    then have run: "ls_status x = L_running" using Cons.prems(2) by simp
    let ?s1 = "s\<lparr>l_status_fetches := l_status_fetches s + 1, l_status := Some x\<rparr>"
    have p1: "ladder_polling h ?s1"
      using Cons.prems(1) run by (simp add: ladder_polling_def ladder_dep_upd)
    have "ladder_run_ticks ((r # rs) @ Resolved t # later) s =
            ladder_run_ticks (rs @ Resolved t # later) ?s1"
      using act by (simp add: Resolved ladder_tick_running [OF Cons.prems(1) run])
    also note ih [OF p1]
    finally show ?thesis by simp
  qed
qed

lemma refresh_run_ticks_idle: "intervals (d_timers s) = [] \<Longrightarrow> refresh_run_ticks rs s = s"
  by (cases rs) simp_all

lemma refresh_tick_rejected:
  "refresh_tick_resume h Rejected (refresh_tick_begin s) =
     s\<lparr>d_status_fetches := d_status_fetches s + 1,
       d_unhandled_rejections := d_unhandled_rejections s + 1\<rparr>"
  by (simp add: refresh_tick_resume_def refresh_tick_begin_def)

lemma refresh_tick_running:
  assumes "refresh_polling h s" and "rf_running st"
  shows "refresh_tick_resume h (Resolved st) (refresh_tick_begin s) =
           s\<lparr>d_status_fetches := d_status_fetches s + 1, refreshStatus := Some st\<rparr>"
  using assms
  by (simp add: refresh_tick_resume_def refresh_tick_begin_def refresh_polling_def
        dashboard_commit_def dashboard_setState_def)

lemma refresh_tick_terminal:
  assumes "refresh_polling h s" and "\<not> rf_running st"
  shows "refresh_tick_resume h (Resolved st) (refresh_tick_begin s) =
           s\<lparr>refreshStatus := Some st, refreshing := False, effect_handle := None,
             d_timers := (d_timers s)\<lparr>intervals := []\<rparr>,
             d_status_fetches := d_status_fetches s + 1,
             d_fetchData_timeouts := d_fetchData_timeouts s + 1,
             d_terminal_runs := d_terminal_runs s + 1\<rparr>"
  using assms
  by (simp add: refresh_tick_resume_def refresh_tick_begin_def refresh_polling_def
        dashboard_commit_def dashboard_setState_def refresh_cleanup_def refresh_effect_def
        clearInterval_def Let_def)

lemma refresh_loop_run:
  assumes "refresh_polling h s"
    and "\<forall>r \<in> set rs. r = Rejected \<or> (\<exists>x. r = Resolved x \<and> rf_running x)"
    and "\<not> rf_running t"
  shows "refresh_run_ticks (rs @ Resolved t # later) s =
           s\<lparr>refreshStatus := Some t, refreshing := False, effect_handle := None,
             d_timers := (d_timers s)\<lparr>intervals := []\<rparr>,
             d_status_fetches := d_status_fetches s + length rs + 1,
             d_fetchData_timeouts := d_fetchData_timeouts s + 1,
             d_unhandled_rejections :=
               d_unhandled_rejections s + length (filter (\<lambda>r. r = Rejected) rs),
             d_terminal_runs := d_terminal_runs s + 1\<rparr>"
  using assms(1,2)
proof (induction rs arbitrary: s)
  case Nil
  have act: "intervals (d_timers s) = [(h, 1500)]" using Nil.prems(1) by (simp add: refresh_polling_def)
  show ?case
    using act by (simp add: refresh_tick_terminal [OF Nil.prems(1) assms(3)] refresh_run_ticks_idle)
next
  case (Cons r rs)
  have act: "intervals (d_timers s) = [(h, 1500)]" using Cons.prems(1) by (simp add: refresh_polling_def)
  have rest: "\<forall>r \<in> set rs. r = Rejected \<or> (\<exists>x. r = Resolved x \<and> rf_running x)"
    using Cons.prems(2) by simp
  have ih: "refresh_polling h s1 \<Longrightarrow>
      refresh_run_ticks (rs @ Resolved t # later) s1 =
        s1\<lparr>refreshStatus := Some t, refreshing := False, effect_handle := None,
             d_timers := (d_timers s1)\<lparr>intervals := []\<rparr>,
             d_status_fetches := d_status_fetches s1 + length rs + 1,
             d_fetchData_timeouts := d_fetchData_timeouts s1 + 1,
             d_unhandled_rejections :=
               d_unhandled_rejections s1 + length (filter (\<lambda>r. r = Rejected) rs),
             d_terminal_runs := d_terminal_runs s1 + 1\<rparr>" for s1
    by (rule Cons.IH [OF _ rest])
  show ?case
  proof (cases r)
    case Rejected
    let ?s1 = "s\<lparr>d_status_fetches := d_status_fetches s + 1,
                   d_unhandled_rejections := d_unhandled_rejections s + 1\<rparr>"
    have p1: "refresh_polling h ?s1" using Cons.prems(1) by (simp add: refresh_polling_def)
    have "refresh_run_ticks ((r # rs) @ Resolved t # later) s =
            refresh_run_ticks (rs @ Resolved t # later) ?s1"
      using act by (simp add: Rejected refresh_tick_rejected)
    also note ih [OF p1]
    finally show ?thesis by (simp add: Rejected)
  next
    case (Resolved x)
    then have run: "rf_running x" using Cons.prems(2) by simp
    let ?s1 = "s\<lparr>d_status_fetches := d_status_fetches s + 1, refreshStatus := Some x\<rparr>"
    have p1: "refresh_polling h ?s1" using Cons.prems(1) by (simp add: refresh_polling_def)
    have "refresh_run_ticks ((r # rs) @ Resolved t # later) s =
            refresh_run_ticks (rs @ Resolved t # later) ?s1"
      using act by (simp add: Resolved refresh_tick_running [OF Cons.prems(1) run])
    also note ih [OF p1]
    finally show ?thesis by (simp add: Resolved)
  qed
qed



lemma all_running_quiet:
  "\<forall>x \<in> set xs. P x \<Longrightarrow> \<forall>r \<in> set (map Resolved xs). r = Rejected \<or> (\<exists>x. r = Resolved x \<and> P x)"
  by auto




lemma check_orphan_tick_quiet:
  assumes "\<not> c_mounted s" and "r = Rejected \<or> (\<exists>x. r = Resolved x \<and> rs_status x = R_running)"
  shows "check_tick_resume k r (check_tick_begin s) =
           s\<lparr>c_status_fetches := c_status_fetches s + 1\<rparr>"
  using assms
  by (cases r) (auto simp add: check_tick_resume_def check_tick_begin_def check_setState_def)

lemma check_orphan_tick_terminal:
  assumes "check_orphan h s" and "rs_status st \<noteq> R_running"
  shows "check_tick_resume k (Resolved st) (check_tick_begin s) =
           s\<lparr>checkPollRef := (if k = PropResultsPage then None else Some h),
             c_timers := (c_timers s)\<lparr>intervals := []\<rparr>,
             c_status_fetches := c_status_fetches s + 1,
             c_terminal_runs := c_terminal_runs s + 1,
             c_load_calls := c_load_calls s + (if rs_status st = R_done then 1 else 0)\<rparr>"
  using assms
  by (simp add: check_tick_resume_def check_tick_begin_def check_orphan_def clearInterval_def
        check_load_def check_setState_def Let_def)

lemma check_orphan_run:
  assumes "check_orphan h s"
    and "\<forall>r \<in> set rs. r = Rejected \<or> (\<exists>x. r = Resolved x \<and> rs_status x = R_running)"
    and "rs_status t \<noteq> R_running"
  shows "check_run_ticks k (rs @ Resolved t # later) s =
           s\<lparr>checkPollRef := (if k = PropResultsPage then None else Some h),
             c_timers := (c_timers s)\<lparr>intervals := []\<rparr>,
             c_status_fetches := c_status_fetches s + length rs + 1,
             c_terminal_runs := c_terminal_runs s + 1,
             c_load_calls := c_load_calls s + (if rs_status t = R_done then 1 else 0)\<rparr>"
  using assms(1,2)
proof (induction rs arbitrary: s)
  case Nil
  have act: "intervals (c_timers s) \<noteq> []" using Nil.prems(1) by (simp add: check_orphan_def)
  show ?case
    using act
    by (simp add: check_orphan_tick_terminal [OF Nil.prems(1) assms(3)] check_run_ticks_idle)
next
  case (Cons r rs)
  have act: "intervals (c_timers s) \<noteq> []" using Cons.prems(1) by (simp add: check_orphan_def)
  have unm: "\<not> c_mounted s" using Cons.prems(1) by (simp add: check_orphan_def)
  have quiet: "r = Rejected \<or> (\<exists>x. r = Resolved x \<and> rs_status x = R_running)"
    using Cons.prems(2) by simp
  have rest: "\<forall>r \<in> set rs. r = Rejected \<or> (\<exists>x. r = Resolved x \<and> rs_status x = R_running)"
    using Cons.prems(2) by simp
  let ?s1 = "s\<lparr>c_status_fetches := c_status_fetches s + 1\<rparr>"
  have p1: "check_orphan h ?s1" using Cons.prems(1) by (simp add: check_orphan_def)
  have "check_run_ticks k ((r # rs) @ Resolved t # later) s =
          check_run_ticks k (rs @ Resolved t # later) ?s1"
    using act by (simp add: check_orphan_tick_quiet [OF unm quiet])
  also note Cons.IH [OF p1 rest]
  finally show ?case by simp
qed

lemma autoCheck_orphan:
  assumes "c_mounted s" and "intervals (c_timers s) = []"
  shows "check_orphan (next_handle (c_timers s))
           (autoCheck_after_status (Resolved st)
              (autoCheck_after_check (Resolved ()) (check_unmount (autoCheck_begin s))))
           = (rs_status st = R_running)"
    and "check_orphan (next_handle (c_timers s))
           (autoCheck_after_status (Resolved st)
              (check_unmount (autoCheck_after_check (Resolved ()) (autoCheck_begin s))))
           = (rs_status st = R_running)"
    and "rs_status st \<noteq> R_running \<Longrightarrow>
         intervals (c_timers
           (autoCheck_after_status (Resolved st)
              (autoCheck_after_check (Resolved ()) (check_unmount (autoCheck_begin s))))) = []"
    and "rs_status st \<noteq> R_running \<Longrightarrow>
         intervals (c_timers
           (autoCheck_after_status (Resolved st)
              (check_unmount (autoCheck_after_check (Resolved ()) (autoCheck_begin s))))) = []"
  using assms
  by (cases "checkPollRef s";
      simp add: check_orphan_def autoCheck_after_status_def autoCheck_after_check_def
        check_unmount_def autoCheck_begin_def check_setState_def check_load_def
        setInterval_def clearInterval_def Let_def)+

lemmas poll_eval =
  no_timers_def setInterval_def clearInterval_def Let_def
  check_page_init_def check_setState_def check_load_def autoCheck_begin_def autoCheck_catch_def
  autoCheck_after_check_def autoCheck_after_status_def check_tick_begin_def
  check_tick_resume_def check_unmount_def check_polling_def
  ladder_page_init_def ladder_setState_def ladder_dep_def poll_cleanup_def poll_effect_def
  ladder_commit_def ladder_mount_def ladder_mount_status_def ladder_results_resume_def
  ladder_unmount_def ladder_tick_begin_def ladder_tick_resume_def runLadder_begin_def
  runLadder_catch_def runLadder_after_trigger_def runLadder_after_status_def ladder_polling_def
  dashboard_init_def dashboard_setState_def refresh_cleanup_def refresh_effect_def
  dashboard_commit_def dashboard_unmount_def handleRefresh_begin_def
  handleRefresh_after_trigger_def handleRefresh_after_status_def refresh_tick_begin_def
  refresh_tick_resume_def refresh_polling_def




text \<open>
  Claim C6. A tick whose status fetch fails changes nothing but the count of the fetches.
  On the check pages and on the ladder page the rejection is caught by the empty
  \<^verbatim>\<open>catch\<close> of the callback. The callback of the dashboard has no \<^verbatim>\<open>try\<close>: there the
  rejection leaves the callback as an unhandled rejection of its promise, which is
  counted and which the page does not observe. In all three the stored status, the
  flags, the error shown and the timer table are as they were, so the loop goes on: in a
  sequential run whose responses are failures or running statuses, followed by a status
  that ends the job, every response is asked for at its tick, the last status is the one
  stored, the end of the job is handled once, nothing is reported with
  \<^verbatim>\<open>console.error\<close> and the error shown by the dashboard is unchanged.
\<close>

theorem failed_poll_tick_is_skipped:
  "check_tick_resume k Rejected (check_tick_begin c) =
     c\<lparr>c_status_fetches := c_status_fetches c + 1\<rparr> \<and>
   ladder_tick_resume Rejected (ladder_tick_begin l) =
     l\<lparr>l_status_fetches := l_status_fetches l + 1\<rparr> \<and>
   refresh_tick_resume h Rejected (refresh_tick_begin d) =
     d\<lparr>d_status_fetches := d_status_fetches d + 1,
       d_unhandled_rejections := d_unhandled_rejections d + 1\<rparr> \<and>
   (check_polling h c \<and>
    (\<forall>r \<in> set crs. r = Rejected \<or> (\<exists>x. r = Resolved x \<and> rs_status x = R_running)) \<and>
    rs_status ct \<noteq> R_running \<longrightarrow>
      (let c' = check_run_ticks k (crs @ Resolved ct # c_later) c
       in checkStatus c' = Some ct \<and>
          c_status_fetches c' = c_status_fetches c + length crs + 1 \<and>
          c_terminal_runs c' = c_terminal_runs c + 1 \<and>
          c_console_errors c' = c_console_errors c)) \<and>
   (ladder_polling h l \<and>
    (\<forall>r \<in> set lrs. r = Rejected \<or> (\<exists>x. r = Resolved x \<and> ls_status x = L_running)) \<and>
    ls_status lt \<noteq> L_running \<longrightarrow>
      (let l' = ladder_run_ticks (lrs @ Resolved lt # l_later) l
       in l_status l' = Some lt \<and>
          l_status_fetches l' = l_status_fetches l + length lrs + 1 \<and>
          l_terminal_runs l' = l_terminal_runs l + 1 \<and>
          l_console_errors l' = l_console_errors l)) \<and>
   (refresh_polling h d \<and>
    (\<forall>r \<in> set drs. r = Rejected \<or> (\<exists>x. r = Resolved x \<and> rf_running x)) \<and>
    \<not> rf_running dt \<longrightarrow>
      (let d' = refresh_run_ticks (drs @ Resolved dt # d_later) d
       in refreshStatus d' = Some dt \<and>
          d_status_fetches d' = d_status_fetches d + length drs + 1 \<and>
          d_terminal_runs d' = d_terminal_runs d + 1 \<and>
          d_error d' = d_error d))"
  (is "?T1 \<and> ?T2 \<and> ?T3 \<and> ?C \<and> ?L \<and> ?D")
proof -
  have C: ?C
  proof (intro impI, elim conjE)
    assume p: "check_polling h c" and t: "rs_status ct \<noteq> R_running"
      and q: "\<forall>r \<in> set crs. r = Rejected \<or> (\<exists>x. r = Resolved x \<and> rs_status x = R_running)"
    show "let c' = check_run_ticks k (crs @ Resolved ct # c_later) c
       in checkStatus c' = Some ct \<and>
          c_status_fetches c' = c_status_fetches c + length crs + 1 \<and>
          c_terminal_runs c' = c_terminal_runs c + 1 \<and>
          c_console_errors c' = c_console_errors c"
      using check_loop_run [OF p q t, of k c_later] by simp
  qed
  have L: ?L
  proof (intro impI, elim conjE)
    assume p: "ladder_polling h l" and t: "ls_status lt \<noteq> L_running"
      and q: "\<forall>r \<in> set lrs. r = Rejected \<or> (\<exists>x. r = Resolved x \<and> ls_status x = L_running)"
    show "let l' = ladder_run_ticks (lrs @ Resolved lt # l_later) l
       in l_status l' = Some lt \<and>
          l_status_fetches l' = l_status_fetches l + length lrs + 1 \<and>
          l_terminal_runs l' = l_terminal_runs l + 1 \<and>
          l_console_errors l' = l_console_errors l"
      using ladder_loop_run [OF p q t, of l_later] by simp
  qed
  have D: ?D
  proof (intro impI, elim conjE)
    assume p: "refresh_polling h d" and t: "\<not> rf_running dt"
      and q: "\<forall>r \<in> set drs. r = Rejected \<or> (\<exists>x. r = Resolved x \<and> rf_running x)"
    show "let d' = refresh_run_ticks (drs @ Resolved dt # d_later) d
       in refreshStatus d' = Some dt \<and>
          d_status_fetches d' = d_status_fetches d + length drs + 1 \<and>
          d_terminal_runs d' = d_terminal_runs d + 1 \<and>
          d_error d' = d_error d"
      using refresh_loop_run [OF p q t, of d_later] by simp
  qed
  show ?thesis
    using C L D
    by (simp only: check_tick_rejected ladder_tick_rejected refresh_tick_rejected simp_thms)
qed


theorem failed_poll_tick_is_skipped_witness:
  "check_polling 1 (check_page_started PropResultsPage) \<and>
   checkStatus
     (check_tick_resume PropResultsPage Rejected
        (check_tick_begin (check_page_started PropResultsPage))) = Some results_running \<and>
   intervals (c_timers
     (check_tick_resume PropResultsPage Rejected
        (check_tick_begin (check_page_started PropResultsPage)))) = [(1, 2000)] \<and>
   checkStatus
     (check_run_ticks PropResultsPage
        [Rejected, Resolved results_running, Rejected, Resolved results_done]
        (check_page_started PropResultsPage)) = Some results_done \<and>
   c_status_fetches
     (check_run_ticks PropResultsPage
        [Rejected, Resolved results_running, Rejected, Resolved results_done]
        (check_page_started PropResultsPage)) = 5 \<and>
   ladder_polling 1 ladder_page_started \<and>
   l_status (ladder_run_ticks [Rejected, Resolved ladder_done] ladder_page_started)
     = Some ladder_done \<and>
   refresh_polling 1 dashboard_started \<and>
   d_error (refresh_tick_resume 1 Rejected (refresh_tick_begin dashboard_started)) = None \<and>
   intervals (d_timers (refresh_tick_resume 1 Rejected (refresh_tick_begin dashboard_started)))
     = [(1, 1500)] \<and>
   refreshStatus (refresh_run_ticks [Rejected, Resolved refresh_finished] dashboard_started)
     = Some refresh_finished"
  using failed_poll_tick_is_skipped
    [where k = PropResultsPage and c = "check_page_started PropResultsPage" and h = 1
       and l = ladder_page_started and d = dashboard_started
       and crs = "[Rejected, Resolved results_running, Rejected]" and ct = results_done
       and c_later = "[]" and lrs = "[Rejected]" and lt = ladder_done and l_later = "[]"
       and drs = "[Rejected]" and dt = refresh_finished and d_later = "[]"]
  by (simp add: poll_eval)

text \<open>
  Claim C4, as the code has it. The loop of the result check tests
  \<^verbatim>\<open>s.status !== "running"\<close>: after a tick with a status the timer is gone exactly when
  the status is \<open>idle\<close>, \<open>done\<close> or \<open>error\<close>, and the loop is still active when it is
  \<open>running\<close>; likewise the first fetch of \<^verbatim>\<open>autoCheck\<close> leaves no timer exactly for
  these three statuses.
\<close>

theorem results_check_stops_unless_running:
  "(check_polling h c \<longrightarrow>
      (intervals (c_timers (check_tick_resume k (Resolved st) (check_tick_begin c))) = []
         \<longleftrightarrow> rs_status st \<in> {R_idle, R_done, R_error}) \<and>
      (rs_status st = R_running \<longrightarrow>
         check_polling h (check_tick_resume k (Resolved st) (check_tick_begin c)))) \<and>
   (c_mounted c \<and> intervals (c_timers c) = [] \<longrightarrow>
      (intervals (c_timers (autoCheck_after_status (Resolved st) c)) = []
         \<longleftrightarrow> rs_status st \<in> {R_idle, R_done, R_error}))"
proof -
  have ph: "rs_status st \<in> {R_idle, R_done, R_error} \<longleftrightarrow> rs_status st \<noteq> R_running"
    by (cases "rs_status st") simp_all
  show ?thesis
    unfolding ph
    by (cases "rs_status st = R_running")
       (auto simp: check_tick_running check_tick_terminal check_polling_def
          autoCheck_after_status_def check_setState_def check_load_def setInterval_def Let_def)
qed

theorem results_check_stops_unless_running_witness:
  "check_polling 1 (check_page_started PropResultsPage) \<and>
   intervals (c_timers
     (check_tick_resume PropResultsPage (Resolved results_idle)
        (check_tick_begin (check_page_started PropResultsPage)))) = [] \<and>
   rs_status results_idle \<in> {R_idle, R_done, R_error} \<and>
   check_polling 1
     (check_tick_resume PropResultsPage (Resolved results_running)
        (check_tick_begin (check_page_started PropResultsPage))) \<and>
   c_mounted check_page_init \<and> intervals (c_timers check_page_init) = [] \<and>
   intervals (c_timers (autoCheck_after_status (Resolved results_idle) check_page_init)) = []"
  using results_check_stops_unless_running
      [where h = 1 and c = "check_page_started PropResultsPage" and k = PropResultsPage
         and st = results_idle]
    results_check_stops_unless_running
      [where h = 1 and c = "check_page_started PropResultsPage" and k = PropResultsPage
         and st = results_running]
    results_check_stops_unless_running
      [where h = 1 and c = check_page_init and k = PropResultsPage and st = results_idle]
  by (simp add: poll_eval)

text \<open>
  Claim C4 as stated lets the loop continue on every status outside \<open>{done, error}\<close>.
  The status \<open>idle\<close> is outside this set, and the loop stops on it: its timer is cleared
  and the statuses that the source would give next are never fetched.
\<close>

theorem idle_status_stops_results_check:
  "rs_status results_idle \<noteq> R_done \<and> rs_status results_idle \<noteq> R_error \<and>
   intervals (c_timers (check_page_started PropResultsPage)) = [(1, 2000)] \<and>
   intervals (c_timers
     (check_run_ticks PropResultsPage [Resolved results_idle]
        (check_page_started PropResultsPage))) = [] \<and>
   c_status_fetches
     (check_run_ticks PropResultsPage
        [Resolved results_idle, Resolved results_running, Resolved results_done]
        (check_page_started PropResultsPage))
     = c_status_fetches (check_page_started PropResultsPage) + 1"
  by (simp add: poll_eval)


text \<open>
  Claim C5 as stated gives every job kind a period of 2000 ms, scheduled after the first
  status. The timer of the refresh has a period of 1500 ms, and it is in the table as
  soon as the refresh is requested, before the trigger has answered.
\<close>

theorem refresh_polls_every_1500_ms:
  "refreshStatus
     (handleRefresh_after_status (Resolved refresh_running)
        (handleRefresh_after_trigger (Resolved ()) (handleRefresh_begin dashboard_init)))
     = Some refresh_running \<and>
   intervals (d_timers
     (handleRefresh_after_status (Resolved refresh_running)
        (handleRefresh_after_trigger (Resolved ()) (handleRefresh_begin dashboard_init))))
     = [(1, 1500)] \<and>
   intervals (d_timers (handleRefresh_begin dashboard_init)) = [(1, 1500)]"
  by (simp add: poll_eval)

text \<open>
  Claim C5, as the code has it. After a trigger that succeeds, each page fetches the
  status once and stores it. The check pages and the ladder page then have a timer with a
  period of 2000 ms exactly when that status is \<open>running\<close>, and none otherwise. The
  dashboard has had its timer, with a period of 1500 ms, since the refresh was requested,
  and keeps it whatever the status.
\<close>

theorem status_fetched_once_then_polled:
  "(c_mounted c \<and> intervals (c_timers c) = [] \<longrightarrow>
      (let c1 = autoCheck_after_check (Resolved ()) (autoCheck_begin c);
           c2 = autoCheck_after_status (Resolved cst) c1
       in c_status_fetches c1 = c_status_fetches c + 1 \<and>
          c_status_fetches c2 = c_status_fetches c + 1 \<and>
          checkStatus c2 = Some cst \<and>
          intervals (c_timers c2) =
            (if rs_status cst = R_running then [(next_handle (c_timers c), 2000)] else []))) \<and>
   (l_mounted l \<and> intervals (l_timers l) = [] \<and> ladder_dep l \<noteq> Some L_running \<longrightarrow>
      (let l1 = runLadder_after_trigger (Resolved ()) (runLadder_begin l);
           l2 = runLadder_after_status (Resolved lst) l1
       in l_status_fetches l1 = l_status_fetches l + 1 \<and>
          l_status_fetches l2 = l_status_fetches l + 1 \<and>
          l_status l2 = Some lst \<and>
          intervals (l_timers l2) =
            (if ls_status lst = L_running then [(next_handle (l_timers l), 2000)] else []))) \<and>
   (d_mounted d \<and> \<not> refreshing d \<and> intervals (d_timers d) = [] \<longrightarrow>
      (let d0 = handleRefresh_begin d;
           d1 = handleRefresh_after_trigger (Resolved ()) d0;
           d2 = handleRefresh_after_status (Resolved dst) d1
       in intervals (d_timers d0) = [(next_handle (d_timers d), 1500)] \<and>
          d_status_fetches d1 = d_status_fetches d + 1 \<and>
          d_status_fetches d2 = d_status_fetches d + 1 \<and>
          refreshStatus d2 = Some dst \<and>
          intervals (d_timers d2) = [(next_handle (d_timers d), 1500)]))"
  (is "?C \<and> ?L \<and> ?D")
proof -
  have C: ?C
    by (simp add: autoCheck_after_check_def autoCheck_begin_def autoCheck_after_status_def
          check_setState_def check_load_def setInterval_def Let_def)
  have L: ?L
    by (auto simp: runLadder_after_trigger_def runLadder_begin_def runLadder_after_status_def
          ladder_setState_def ladder_commit_def ladder_dep_upd poll_cleanup_def poll_effect_def
          setInterval_def clearInterval_def Let_def split: option.splits)
  have D: ?D
    by (auto simp: handleRefresh_begin_def handleRefresh_after_trigger_def
          handleRefresh_after_status_def dashboard_setState_def dashboard_commit_def
          refresh_cleanup_def refresh_effect_def setInterval_def clearInterval_def Let_def
          split: option.splits)
  from C L D show ?thesis by blast
qed

theorem status_fetched_once_then_polled_witness:
  "c_mounted check_page_init \<and> intervals (c_timers check_page_init) = [] \<and>
   intervals (c_timers (check_page_started PropResultsPage)) = [(1, 2000)] \<and>
   checkStatus (check_page_started PropResultsPage) = Some results_running \<and>
   intervals (c_timers (autoCheck_run PropResultsPage [Resolved results_idle] check_page_init)) = [] \<and>
   l_mounted (ladder_mount ladder_page_init) \<and>
   intervals (l_timers ladder_page_started) = [(1, 2000)] \<and>
   d_mounted dashboard_init \<and>
   intervals (d_timers
     (handleRefresh_after_status (Resolved refresh_finished)
        (handleRefresh_after_trigger (Resolved ()) dashboard_started))) = [(1, 1500)]"
  using status_fetched_once_then_polled
      [where c = check_page_init and cst = results_running
         and l = "ladder_mount ladder_page_init" and lst = ladder_running
         and d = dashboard_init and dst = refresh_finished]
    status_fetched_once_then_polled [where c = check_page_init and cst = results_idle]
  by (simp add: poll_eval)

text \<open>
  Claim C2 as stated lets no callback fire after the cancellation, also for a fetch in
  flight. No page checks a cancellation flag: with a status fetch in flight at the
  unmount, the answer \<open>done\<close> of the result check still calls \<^verbatim>\<open>load()\<close>, the answer
  \<open>done\<close> of the ladder still fetches the results, and the end of the refresh still
  schedules \<^verbatim>\<open>fetchData\<close>.
\<close>

theorem callback_fires_after_unmount:
  "intervals (c_timers (check_unmount (check_tick_begin (check_page_started PropResultsPage)))) = [] \<and>
   c_load_calls (check_unmount (check_tick_begin (check_page_started PropResultsPage))) = 0 \<and>
   c_load_calls
     (check_tick_resume PropResultsPage (Resolved results_done)
        (check_unmount (check_tick_begin (check_page_started PropResultsPage)))) = 1 \<and>
   l_results_fetches (ladder_unmount (ladder_tick_begin ladder_page_started)) = 1 \<and>
   l_results_fetches
     (ladder_tick_resume (Resolved ladder_done)
        (ladder_unmount (ladder_tick_begin ladder_page_started))) = 2 \<and>
   d_fetchData_timeouts (dashboard_unmount (refresh_tick_begin dashboard_started)) = 0 \<and>
   d_fetchData_timeouts
     (refresh_tick_resume 1 (Resolved refresh_finished)
        (dashboard_unmount (refresh_tick_begin dashboard_started))) = 1"
  by (simp add: poll_eval)

text \<open>
  Claim C2, as the code has it, for the loops whose timer is active at the unmount. The
  unmount of a page with an active loop clears the timer at once, and no tick fires
  afterwards. A status fetch in flight at that moment is not cancelled: when it is
  answered the callback resumes. The state of the unmounted page is not changed (React
  discards the calls of its setters), and no timer is started, but the block that handles
  the end of the job runs when the status is not running, and with it the reload of the
  check pages and the results fetch of the ladder page on \<open>done\<close>, and the \<^verbatim>\<open>fetchData\<close>
  timeout of the dashboard.

  A result check that is unmounted before its loop has started, with the trigger or the
  first status fetch of \<^verbatim>\<open>autoCheck\<close> in flight, is not stopped by the cleanup: on a first
  status that is running \<^verbatim>\<open>autoCheck\<close> starts the timer on the unmounted page. That timer
  ticks, with one status fetch a tick, until a status that is not running (after \<open>N\<close>
  further running statuses: \<open>N + 1\<close> fetches); that tick clears the timer and handles the
  end of the job, with \<^verbatim>\<open>load()\<close> on \<open>done\<close>, and the state shown is never changed. On the
  ladder page and on the dashboard no timer is started after the unmount: the timer
  table is the same after \<^verbatim>\<open>runLadder\<close>, the status fetch of the mount or
  \<^verbatim>\<open>handleRefresh\<close> have resumed on the unmounted page.
\<close>

theorem cancel_clears_timer_only:
  "(check_polling h c \<longrightarrow>
      intervals (c_timers (check_unmount c)) = [] \<and>
      (\<forall>rs. check_run_ticks k rs (check_unmount c) = check_unmount c) \<and>
      (let c' = check_tick_resume k (Resolved cst) (check_unmount (check_tick_begin c))
       in checkStatus c' = checkStatus c \<and> checking c' = checking c \<and>
          intervals (c_timers c') = [] \<and>
          c_terminal_runs c' = c_terminal_runs c + (if rs_status cst \<noteq> R_running then 1 else 0) \<and>
          c_load_calls c' = c_load_calls c + (if rs_status cst = R_done then 1 else 0))) \<and>
   (ladder_polling h l \<longrightarrow>
      intervals (l_timers (ladder_unmount l)) = [] \<and>
      (\<forall>rs. ladder_run_ticks rs (ladder_unmount l) = ladder_unmount l) \<and>
      (let l' = ladder_tick_resume (Resolved lst) (ladder_unmount (ladder_tick_begin l))
       in l_status l' = l_status l \<and> intervals (l_timers l') = [] \<and>
          l_terminal_runs l' = l_terminal_runs l + (if ls_status lst \<noteq> L_running then 1 else 0) \<and>
          l_results_fetches l' = l_results_fetches l + (if ls_status lst = L_done then 1 else 0))) \<and>
   (refresh_polling h d \<longrightarrow>
      intervals (d_timers (dashboard_unmount d)) = [] \<and>
      (\<forall>rs. refresh_run_ticks rs (dashboard_unmount d) = dashboard_unmount d) \<and>
      (let d' = refresh_tick_resume h (Resolved dst) (dashboard_unmount (refresh_tick_begin d))
       in refreshStatus d' = refreshStatus d \<and> refreshing d' = refreshing d \<and>
          intervals (d_timers d') = [] \<and>
          d_terminal_runs d' = d_terminal_runs d + (if \<not> rf_running dst then 1 else 0) \<and>
          d_fetchData_timeouts d' = d_fetchData_timeouts d + (if \<not> rf_running dst then 1 else 0))) \<and>
   (c_mounted cb \<and> intervals (c_timers cb) = [] \<longrightarrow>
      (let c1 = autoCheck_after_status (Resolved cst)
                  (autoCheck_after_check (Resolved ()) (check_unmount (autoCheck_begin cb)));
           c2 = autoCheck_after_status (Resolved cst)
                  (check_unmount (autoCheck_after_check (Resolved ()) (autoCheck_begin cb)))
       in (if rs_status cst = R_running
           then check_orphan (next_handle (c_timers cb)) c1 \<and>
                check_orphan (next_handle (c_timers cb)) c2
           else intervals (c_timers c1) = [] \<and> intervals (c_timers c2) = []))) \<and>
   (check_orphan h co \<and> (\<forall>x \<in> set cs. rs_status x = R_running) \<and> rs_status ct \<noteq> R_running \<longrightarrow>
      (let c' = check_run_ticks k (map Resolved (cs @ [ct]) @ c_later) co
       in c_status_fetches c' = c_status_fetches co + length cs + 1 \<and>
          c_terminal_runs c' = c_terminal_runs co + 1 \<and>
          c_load_calls c' = c_load_calls co + (if rs_status ct = R_done then 1 else 0) \<and>
          checkStatus c' = checkStatus co \<and> checking c' = checking co \<and>
          intervals (c_timers c') = [] \<and> (\<forall>rs. check_run_ticks k rs c' = c'))) \<and>
   (\<not> l_mounted lu \<longrightarrow>
      l_timers (runLadder_after_status lr (runLadder_after_trigger (Resolved ()) lu))
        = l_timers lu \<and>
      l_timers (ladder_mount_status lr lu) = l_timers lu) \<and>
   (\<not> d_mounted du \<longrightarrow>
      d_timers (handleRefresh_after_status dr (handleRefresh_after_trigger (Resolved ()) du))
        = d_timers du)"
  (is "?C \<and> ?L \<and> ?D \<and> ?OS \<and> ?OR \<and> ?LU \<and> ?DU")
proof -
  have C: ?C
  proof
    assume p: "check_polling h c"
    have idle: "intervals (c_timers (check_unmount c)) = []"
      using p by (simp add: check_polling_def check_unmount_def clearInterval_def)
    show "intervals (c_timers (check_unmount c)) = [] \<and>
      (\<forall>rs. check_run_ticks k rs (check_unmount c) = check_unmount c) \<and>
      (let c' = check_tick_resume k (Resolved cst) (check_unmount (check_tick_begin c))
       in checkStatus c' = checkStatus c \<and> checking c' = checking c \<and>
          intervals (c_timers c') = [] \<and>
          c_terminal_runs c' = c_terminal_runs c + (if rs_status cst \<noteq> R_running then 1 else 0) \<and>
          c_load_calls c' = c_load_calls c + (if rs_status cst = R_done then 1 else 0))"
      using p idle
      by (simp add: check_run_ticks_idle)
         (simp add: check_polling_def check_unmount_def check_tick_begin_def
            check_tick_resume_def check_setState_def check_load_def clearInterval_def Let_def)
  qed
  have L: ?L
  proof
    assume p: "ladder_polling h l"
    have idle: "intervals (l_timers (ladder_unmount l)) = []"
      using p by (simp add: ladder_polling_def ladder_unmount_def poll_cleanup_def clearInterval_def)
    show "intervals (l_timers (ladder_unmount l)) = [] \<and>
      (\<forall>rs. ladder_run_ticks rs (ladder_unmount l) = ladder_unmount l) \<and>
      (let l' = ladder_tick_resume (Resolved lst) (ladder_unmount (ladder_tick_begin l))
       in l_status l' = l_status l \<and> intervals (l_timers l') = [] \<and>
          l_terminal_runs l' = l_terminal_runs l + (if ls_status lst \<noteq> L_running then 1 else 0) \<and>
          l_results_fetches l' = l_results_fetches l + (if ls_status lst = L_done then 1 else 0))"
      using p idle
      by (simp add: ladder_run_ticks_idle)
         (simp add: ladder_polling_def ladder_unmount_def poll_cleanup_def ladder_tick_begin_def
            ladder_tick_resume_def ladder_setState_def ladder_commit_def clearInterval_def Let_def)
  qed
  have D: ?D
  proof
    assume p: "refresh_polling h d"
    have idle: "intervals (d_timers (dashboard_unmount d)) = []"
      using p
      by (simp add: refresh_polling_def dashboard_unmount_def refresh_cleanup_def clearInterval_def)
    show "intervals (d_timers (dashboard_unmount d)) = [] \<and>
      (\<forall>rs. refresh_run_ticks rs (dashboard_unmount d) = dashboard_unmount d) \<and>
      (let d' = refresh_tick_resume h (Resolved dst) (dashboard_unmount (refresh_tick_begin d))
       in refreshStatus d' = refreshStatus d \<and> refreshing d' = refreshing d \<and>
          intervals (d_timers d') = [] \<and>
          d_terminal_runs d' = d_terminal_runs d + (if \<not> rf_running dst then 1 else 0) \<and>
          d_fetchData_timeouts d' = d_fetchData_timeouts d + (if \<not> rf_running dst then 1 else 0))"
      using p idle
      by (simp add: refresh_run_ticks_idle)
         (simp add: refresh_polling_def dashboard_unmount_def refresh_cleanup_def
            refresh_tick_begin_def refresh_tick_resume_def dashboard_setState_def
            dashboard_commit_def clearInterval_def Let_def)
  qed
  have OS: ?OS
  proof (intro impI, elim conjE)
    assume mnt: "c_mounted cb" and idle: "intervals (c_timers cb) = []"
    show "let c1 = autoCheck_after_status (Resolved cst)
                  (autoCheck_after_check (Resolved ()) (check_unmount (autoCheck_begin cb)));
           c2 = autoCheck_after_status (Resolved cst)
                  (check_unmount (autoCheck_after_check (Resolved ()) (autoCheck_begin cb)))
       in (if rs_status cst = R_running
           then check_orphan (next_handle (c_timers cb)) c1 \<and>
                check_orphan (next_handle (c_timers cb)) c2
           else intervals (c_timers c1) = [] \<and> intervals (c_timers c2) = [])"
      by (simp add: Let_def autoCheck_orphan [OF mnt idle])
  qed
  have OR: ?OR
  proof (intro impI, elim conjE)
    assume p: "check_orphan h co" and run: "\<forall>x \<in> set cs. rs_status x = R_running"
      and t: "rs_status ct \<noteq> R_running"
    show "let c' = check_run_ticks k (map Resolved (cs @ [ct]) @ c_later) co
       in c_status_fetches c' = c_status_fetches co + length cs + 1 \<and>
          c_terminal_runs c' = c_terminal_runs co + 1 \<and>
          c_load_calls c' = c_load_calls co + (if rs_status ct = R_done then 1 else 0) \<and>
          checkStatus c' = checkStatus co \<and> checking c' = checking co \<and>
          intervals (c_timers c') = [] \<and> (\<forall>rs. check_run_ticks k rs c' = c')"
      using check_orphan_run [OF p all_running_quiet [OF run] t, of k c_later]
      by (simp add: check_run_ticks_idle)
  qed
  have LU: ?LU
    by (cases lr)
       (simp_all add: runLadder_after_status_def runLadder_after_trigger_def runLadder_catch_def
          ladder_mount_status_def ladder_setState_def ladder_commit_def)
  have DU: ?DU
    by (cases dr)
       (simp_all add: handleRefresh_after_status_def handleRefresh_after_trigger_def
          dashboard_setState_def)
  from C L D OS OR LU DU show ?thesis by blast
qed

theorem cancel_clears_timer_only_witness:
  "check_polling 1 (check_page_started HistoryPage) \<and>
   intervals (c_timers (check_unmount (check_page_started HistoryPage))) = [] \<and>
   c_status_fetches
     (check_run_ticks HistoryPage [Resolved results_done] (check_unmount (check_page_started HistoryPage)))
     = 1 \<and>
   checkStatus
     (check_tick_resume HistoryPage (Resolved results_done)
        (check_unmount (check_tick_begin (check_page_started HistoryPage)))) = Some results_running \<and>
   ladder_polling 1 ladder_page_started \<and>
   intervals (l_timers (ladder_unmount ladder_page_started)) = [] \<and>
   refresh_polling 1 dashboard_started \<and>
   intervals (d_timers (dashboard_unmount dashboard_started)) = [] \<and>
   c_mounted check_page_init \<and>
   check_orphan 1
     (autoCheck_after_status (Resolved results_running)
        (autoCheck_after_check (Resolved ()) (check_unmount (autoCheck_begin check_page_init)))) \<and>
   c_status_fetches
     (check_run_ticks PropResultsPage
        [Resolved results_running, Resolved results_done, Resolved results_running]
        (autoCheck_after_status (Resolved results_running)
           (autoCheck_after_check (Resolved ()) (check_unmount (autoCheck_begin check_page_init)))))
     = 3 \<and>
   c_load_calls
     (check_run_ticks PropResultsPage
        [Resolved results_running, Resolved results_done, Resolved results_running]
        (autoCheck_after_status (Resolved results_running)
           (autoCheck_after_check (Resolved ()) (check_unmount (autoCheck_begin check_page_init)))))
     = 1 \<and>
   l_mounted (runLadder_begin (ladder_mount ladder_page_init)) \<and>
   intervals (l_timers
     (runLadder_after_status (Resolved ladder_running)
        (runLadder_after_trigger (Resolved ())
           (ladder_unmount (runLadder_begin (ladder_mount ladder_page_init)))))) = [] \<and>
   d_mounted dashboard_started \<and>
   intervals (d_timers
     (handleRefresh_after_status (Resolved refresh_running)
        (handleRefresh_after_trigger (Resolved ()) (dashboard_unmount dashboard_started)))) = []"
proof -
  note unmount = cancel_clears_timer_only
      [where h = 1 and c = "check_page_started HistoryPage" and k = HistoryPage
         and cst = results_done and l = ladder_page_started and lst = ladder_done
         and d = dashboard_started and dst = refresh_finished]
  note orphan = cancel_clears_timer_only
      [where h = 1 and k = PropResultsPage and cb = check_page_init and cst = results_running
         and co = "autoCheck_after_status (Resolved results_running)
                    (autoCheck_after_check (Resolved ())
                       (check_unmount (autoCheck_begin check_page_init)))"
         and cs = "[results_running]" and ct = results_done
         and c_later = "[Resolved results_running]"
         and lu = "ladder_unmount (runLadder_begin (ladder_mount ladder_page_init))"
         and lr = "Resolved ladder_running"
         and du = "dashboard_unmount dashboard_started"
         and dr = "Resolved refresh_running"]
  have check: "check_polling 1 (check_page_started HistoryPage)"
    by (simp add: poll_eval)
  have a: "intervals (c_timers (check_unmount (check_page_started HistoryPage))) = [] \<and>
     c_status_fetches
       (check_run_ticks HistoryPage [Resolved results_done]
          (check_unmount (check_page_started HistoryPage))) = 1 \<and>
     checkStatus
       (check_tick_resume HistoryPage (Resolved results_done)
          (check_unmount (check_tick_begin (check_page_started HistoryPage))))
       = Some results_running"
    using unmount [THEN conjunct1, THEN mp, OF check] by (simp add: poll_eval)
  have ladder: "ladder_polling 1 ladder_page_started"
    by (simp add: poll_eval)
  have b: "intervals (l_timers (ladder_unmount ladder_page_started)) = []"
    using unmount [THEN conjunct2, THEN conjunct1, THEN mp, OF ladder] by simp
  have refresh: "refresh_polling 1 dashboard_started"
    by (simp add: poll_eval)
  have c: "intervals (d_timers (dashboard_unmount dashboard_started)) = []"
    using unmount [THEN conjunct2, THEN conjunct2, THEN conjunct1, THEN mp, OF refresh] by simp
  have idle: "c_mounted check_page_init \<and> intervals (c_timers check_page_init) = []"
    by (simp add: poll_eval)
  have d: "check_orphan 1
       (autoCheck_after_status (Resolved results_running)
          (autoCheck_after_check (Resolved ())
             (check_unmount (autoCheck_begin check_page_init))))"
    using orphan [THEN conjunct2, THEN conjunct2, THEN conjunct2, THEN conjunct1, THEN mp,
                  OF idle]
    by (simp add: Let_def check_page_init_def no_timers_def)
  have quiet: "check_orphan 1
       (autoCheck_after_status (Resolved results_running)
          (autoCheck_after_check (Resolved ())
             (check_unmount (autoCheck_begin check_page_init)))) \<and>
      (\<forall>x \<in> set [results_running]. rs_status x = R_running) \<and>
      rs_status results_done \<noteq> R_running"
    using d by simp
  have e: "c_status_fetches
       (check_run_ticks PropResultsPage
          [Resolved results_running, Resolved results_done, Resolved results_running]
          (autoCheck_after_status (Resolved results_running)
             (autoCheck_after_check (Resolved ())
                (check_unmount (autoCheck_begin check_page_init))))) = 3 \<and>
     c_load_calls
       (check_run_ticks PropResultsPage
          [Resolved results_running, Resolved results_done, Resolved results_running]
          (autoCheck_after_status (Resolved results_running)
             (autoCheck_after_check (Resolved ())
                (check_unmount (autoCheck_begin check_page_init))))) = 1"
    using orphan [THEN conjunct2, THEN conjunct2, THEN conjunct2, THEN conjunct2,
                  THEN conjunct1, THEN mp, OF quiet]
    by (simp add: poll_eval)
  have gone: "\<not> l_mounted (ladder_unmount (runLadder_begin (ladder_mount ladder_page_init)))"
    "\<not> d_mounted (dashboard_unmount dashboard_started)"
    by (simp_all add: poll_eval)
  have mounted: "l_mounted (runLadder_begin (ladder_mount ladder_page_init))"
    "d_mounted dashboard_started"
    by (simp_all add: poll_eval)
  have f: "intervals (l_timers
       (runLadder_after_status (Resolved ladder_running)
          (runLadder_after_trigger (Resolved ())
             (ladder_unmount (runLadder_begin (ladder_mount ladder_page_init)))))) = []"
    using orphan [THEN conjunct2, THEN conjunct2, THEN conjunct2, THEN conjunct2,
                  THEN conjunct2, THEN conjunct1, THEN mp, OF gone(1)]
    by (simp add: poll_eval)
  have g: "intervals (d_timers
       (handleRefresh_after_status (Resolved refresh_running)
          (handleRefresh_after_trigger (Resolved ()) (dashboard_unmount dashboard_started))))
       = []"
    using orphan [THEN conjunct2, THEN conjunct2, THEN conjunct2, THEN conjunct2,
                  THEN conjunct2, THEN conjunct2, THEN mp, OF gone(2)]
    by (simp add: poll_eval)
  have start: "c_mounted check_page_init" using idle by simp
  from check a ladder b refresh c start d e mounted f g show ?thesis
    by blast
qed

text \<open>
  Claim C3 on the dashboard. \<^verbatim>\<open>handleRefresh\<close> sets \<^verbatim>\<open>refreshing\<close> before it awaits the
  trigger, and has no \<^verbatim>\<open>try\<close>: when the trigger is rejected, \<^verbatim>\<open>refreshing\<close> stays set,
  the timer that the poll effect has started is still in the table, and the status is
  polled every 1500 ms.
\<close>

theorem refresh_polls_after_failed_trigger:
  "refreshing (handleRefresh_after_trigger Rejected (handleRefresh_begin dashboard_init)) \<and>
   intervals (d_timers (handleRefresh_after_trigger Rejected (handleRefresh_begin dashboard_init)))
     = [(1, 1500)] \<and>
   d_unhandled_rejections (handleRefresh_after_trigger Rejected (handleRefresh_begin dashboard_init))
     = 1 \<and>
   d_status_fetches
     (refresh_run_ticks [Resolved refresh_running, Resolved refresh_running]
        (handleRefresh_after_trigger Rejected (handleRefresh_begin dashboard_init))) = 2"
  by (simp add: poll_eval)

text \<open>
  The result check and the ladder do what claim C3 says: a rejected trigger is reported
  with \<^verbatim>\<open>console.error\<close>, the flag of the button is reset, no status is fetched and the
  timer table is as before.
\<close>

lemma failed_trigger_on_check_and_ladder:
  "c_status_fetches (autoCheck_after_check Rejected (autoCheck_begin c)) = c_status_fetches c \<and>
   c_timers (autoCheck_after_check Rejected (autoCheck_begin c)) = c_timers c \<and>
   c_console_errors (autoCheck_after_check Rejected (autoCheck_begin c)) = c_console_errors c + 1 \<and>
   (c_mounted c \<longrightarrow> \<not> checking (autoCheck_after_check Rejected (autoCheck_begin c))) \<and>
   l_status_fetches (runLadder_after_trigger Rejected (runLadder_begin l)) = l_status_fetches l \<and>
   l_timers (runLadder_after_trigger Rejected (runLadder_begin l)) = l_timers l \<and>
   l_console_errors (runLadder_after_trigger Rejected (runLadder_begin l)) = l_console_errors l + 1 \<and>
   (l_mounted l \<longrightarrow> \<not> triggering (runLadder_after_trigger Rejected (runLadder_begin l)))"
  by (simp add: autoCheck_after_check_def autoCheck_begin_def autoCheck_catch_def
        check_setState_def runLadder_after_trigger_def runLadder_begin_def runLadder_catch_def
        ladder_setState_def)

end
